theory Spec2Isabelle
  imports Complex_Main "HOL-Library.AList"
begin

section \<open>JavaScript strings\<close>

text \<open>
  A JavaScript string is modelled as a \<^typ>\<open>string\<close>: a list of characters whose code
  units are below 256.  The helpers below are the \<^verbatim>\<open>String.prototype\<close> methods the
  modelled functions call, with the result JavaScript gives.
\<close>

definition dq :: char where
  "dq = CHR 0x22"

definition nl :: char where
  "nl = CHR 0x0A"

definition is_digit :: "char \<Rightarrow> bool" where
  "is_digit ch = (ch \<in> set ''0123456789'')"

definition is_lower :: "char \<Rightarrow> bool" where
  "is_lower ch = (ch \<in> set ''abcdefghijklmnopqrstuvwxyz'')"

definition is_upper :: "char \<Rightarrow> bool" where
  "is_upper ch = (ch \<in> set ''ABCDEFGHIJKLMNOPQRSTUVWXYZ'')"

definition is_alpha :: "char \<Rightarrow> bool" where
  "is_alpha ch = (is_lower ch \<or> is_upper ch)"

definition is_alnum :: "char \<Rightarrow> bool" where
  "is_alnum ch = (is_alpha ch \<or> is_digit ch)"

text \<open>The class \<^verbatim>\<open>\w\<close>.\<close>

definition is_word :: "char \<Rightarrow> bool" where
  "is_word ch = (is_alnum ch \<or> ch = CHR ''_'')"

text \<open>
  The class \<^verbatim>\<open>\s\<close>, which is also what \<^verbatim>\<open>trim()\<close> strips: tab, line feed, vertical
  tab, form feed, carriage return, space and the no-break space U+00A0.
\<close>

definition js_space :: "char \<Rightarrow> bool" where
  "js_space ch =
     (ch \<in> set [CHR 0x09, CHR 0x0A, CHR 0x0B, CHR 0x0C, CHR 0x0D, CHR 0x20, CHR 0xA0])"

definition js_trim :: "string \<Rightarrow> string" where
  "js_trim s = rev (dropWhile js_space (rev (dropWhile js_space s)))"

text \<open>\<^verbatim>\<open>s.startsWith(p)\<close>.\<close>

definition starts_with :: "string \<Rightarrow> string \<Rightarrow> bool" where
  "starts_with p s = (take (length p) s = p)"

text \<open>\<^verbatim>\<open>s.includes(sub)\<close>.\<close>

fun js_includes :: "string \<Rightarrow> string \<Rightarrow> bool" where
  "js_includes sub [] = (sub = [])"
| "js_includes sub (x # t) = (starts_with sub (x # t) \<or> js_includes sub t)"

text \<open>
  \<^verbatim>\<open>s.split(sep)\<close> for a non-empty separator string.  The counter is the number of
  characters of a separator just found that are still to be skipped; the third argument is
  the piece being collected.
\<close>

fun js_split_from :: "string \<Rightarrow> nat \<Rightarrow> string \<Rightarrow> string \<Rightarrow> string list" where
  "js_split_from sep k cur [] = [cur]"
| "js_split_from sep (Suc k) cur (x # t) = js_split_from sep k cur t"
| "js_split_from sep 0 cur (x # t) =
     (if starts_with sep (x # t) then cur # js_split_from sep (length sep - 1) [] t
      else js_split_from sep 0 (cur @ [x]) t)"

definition js_split :: "string \<Rightarrow> string \<Rightarrow> string list" where
  "js_split sep s = js_split_from sep 0 [] s"

text \<open>\<^verbatim>\<open>arr.join(sep)\<close>.\<close>

fun js_join :: "string \<Rightarrow> string list \<Rightarrow> string" where
  "js_join sep [] = []"
| "js_join sep [x] = x"
| "js_join sep (x # y # ys) = x @ sep @ js_join sep (y # ys)"

text \<open>
  \<^verbatim>\<open>s.replace(pat, rep)\<close> for a string pattern: the first occurrence only.  The replacement
  is inserted as it is, which is what JavaScript does when it holds no \<^verbatim>\<open>$\<close>.
\<close>

fun js_replace_first :: "string \<Rightarrow> string \<Rightarrow> string \<Rightarrow> string" where
  "js_replace_first pat rep [] = (if pat = [] then rep else [])"
| "js_replace_first pat rep (x # t) =
     (if starts_with pat (x # t) then rep @ drop (length pat) (x # t)
      else x # js_replace_first pat rep t)"

text \<open>
  \<^verbatim>\<open>s.toLowerCase()\<close> on code units below 256: the letters A to Z and the accented
  capitals U+00C0 to U+00DE (the multiplication sign U+00D7 apart) move up by 32.
\<close>

definition upper_chars :: "char list" where
  "upper_chars = ''ABCDEFGHIJKLMNOPQRSTUVWXYZ'' @
     [CHR 0xC0, CHR 0xC1, CHR 0xC2, CHR 0xC3, CHR 0xC4, CHR 0xC5, CHR 0xC6, CHR 0xC7,
      CHR 0xC8, CHR 0xC9, CHR 0xCA, CHR 0xCB, CHR 0xCC, CHR 0xCD, CHR 0xCE, CHR 0xCF,
      CHR 0xD0, CHR 0xD1, CHR 0xD2, CHR 0xD3, CHR 0xD4, CHR 0xD5, CHR 0xD6,
      CHR 0xD8, CHR 0xD9, CHR 0xDA, CHR 0xDB, CHR 0xDC, CHR 0xDD, CHR 0xDE]"

definition lower_chars :: "char list" where
  "lower_chars = ''abcdefghijklmnopqrstuvwxyz'' @
     [CHR 0xE0, CHR 0xE1, CHR 0xE2, CHR 0xE3, CHR 0xE4, CHR 0xE5, CHR 0xE6, CHR 0xE7,
      CHR 0xE8, CHR 0xE9, CHR 0xEA, CHR 0xEB, CHR 0xEC, CHR 0xED, CHR 0xEE, CHR 0xEF,
      CHR 0xF0, CHR 0xF1, CHR 0xF2, CHR 0xF3, CHR 0xF4, CHR 0xF5, CHR 0xF6,
      CHR 0xF8, CHR 0xF9, CHR 0xFA, CHR 0xFB, CHR 0xFC, CHR 0xFD, CHR 0xFE]"

definition lower_char :: "char \<Rightarrow> char" where
  "lower_char ch = (case map_of (zip upper_chars lower_chars) ch of Some l \<Rightarrow> l | None \<Rightarrow> ch)"

definition toLowerCase :: "string \<Rightarrow> string" where
  "toLowerCase s = map lower_char s"

text \<open>Decimal digits of a number, as a template literal prints it.\<close>

definition digit_char :: "nat \<Rightarrow> char" where
  "digit_char d = ''0123456789'' ! (d mod 10)"

function show_nat :: "nat \<Rightarrow> string" where
  "show_nat n = (if n < 10 then [digit_char n] else show_nat (n div 10) @ [digit_char (n mod 10)])"
  by pat_completeness auto
termination
  by (relation "measure id") auto

section \<open>Regular expressions\<close>

text \<open>
  The patterns of the source are written as terms of \<open>rx\<close>, one constructor for each
  construct the source's patterns use: a literal, one character of a class, a greedy
  repetition \<^verbatim>\<open>{lo,hi}\<close> of a class (\<^verbatim>\<open>+\<close> is \<^verbatim>\<open>{1,}\<close>, \<^verbatim>\<open>*\<close> is \<^verbatim>\<open>{0,}\<close>), sequence,
  alternation, a greedy optional part, a capture group and the end anchor \<^verbatim>\<open>$\<close>.

  \<open>ends r (s, c)\<close> lists every way \<open>r\<close> can match a prefix of \<open>s\<close>, as the text left
  over and the captures, in the order the backtracking matcher of JavaScript tries them.
  The match JavaScript reports is the head of that list.
\<close>

type_synonym caps = "(nat \<times> string) list"

type_synonym mstate = "string \<times> caps"

datatype rx =
    Lit string
  | Cls "char \<Rightarrow> bool"
  | Rep "char \<Rightarrow> bool" nat "nat option"
  | Seq rx rx
  | Alt rx rx
  | Opt rx
  | Grp nat rx
  | Eos

fun ends :: "rx \<Rightarrow> mstate \<Rightarrow> mstate list" where
  "ends (Lit l) (s, c) = (if starts_with l s then [(drop (length l) s, c)] else [])"
| "ends (Cls p) (s, c) = (case s of [] \<Rightarrow> [] | x # t \<Rightarrow> if p x then [(t, c)] else [])"
| "ends (Rep p lo hi) (s, c) =
     (let run = length (takeWhile p s);
          top = (case hi of None \<Rightarrow> run | Some h \<Rightarrow> min h run)
      in map (\<lambda>k. (drop k s, c)) (rev [lo ..< Suc top]))"
| "ends (Seq a b) st = concat (map (ends b) (ends a st))"
| "ends (Alt a b) st = ends a st @ ends b st"
| "ends (Opt a) st = ends a st @ [st]"
| "ends (Grp i a) (s, c) =
     map (\<lambda>(s', c'). (s', (i, take (length s - length s') s) # c')) (ends a (s, c))"
| "ends Eos (s, c) = (if s = [] then [(s, c)] else [])"

fun seqs :: "rx list \<Rightarrow> rx" where
  "seqs [] = Lit []"
| "seqs [r] = r"
| "seqs (r # rs) = Seq r (seqs rs)"

fun alts :: "rx list \<Rightarrow> rx" where
  "alts [] = Cls (\<lambda>_. False)"
| "alts [r] = r"
| "alts (r # rs) = Alt r (alts rs)"

text \<open>\<^verbatim>\<open>match[i]\<close>: the text of group \<open>i\<close>, \<^verbatim>\<open>undefined\<close> when it took no part.\<close>

definition grp :: "caps \<Rightarrow> nat \<Rightarrow> string option" where
  "grp c i = map_of c i"

text \<open>
  A pattern anchored with \<^verbatim>\<open>^\<close> is tried at the start of the string only.
\<close>

definition rx_match_start :: "rx \<Rightarrow> string \<Rightarrow> (string \<times> caps) option" where
  "rx_match_start r s =
     (case ends r (s, []) of [] \<Rightarrow> None
      | (s', c) # _ \<Rightarrow> Some (take (length s - length s') s, c))"

text \<open>
  \<^verbatim>\<open>s.match(r)\<close> without the global flag: the leftmost match, as its index, its text and
  its captures.
\<close>

fun rx_search :: "rx \<Rightarrow> string \<Rightarrow> (nat \<times> string \<times> caps) option" where
  "rx_search r [] =
     (case ends r ([], []) of [] \<Rightarrow> None | (s', c) # _ \<Rightarrow> Some (0, [], c))"
| "rx_search r (x # t) =
     (case ends r (x # t, []) of
        (s', c) # _ \<Rightarrow> Some (0, take (length (x # t) - length s') (x # t), c)
      | [] \<Rightarrow> (case rx_search r t of None \<Rightarrow> None | Some (i, m, c) \<Rightarrow> Some (Suc i, m, c)))"

text \<open>
  A pattern with the global flag walks the string from left to right: at each position the
  leftmost match is taken and the walk goes on after it.  \<open>rx_scan r 0 s\<close> is the string
  cut into the characters outside every match (\<open>Inl\<close>) and the matches (\<open>Inr\<close>), in
  order; the counter is the number of characters of the last match still to be skipped.
  Matches of length zero are not modelled (the position counts as no match): no pattern
  of the source that is used with the global flag can match the empty string
  (\<open>ends_min_len\<close>, \<open>global_patterns_consume\<close>), so each of its loops ends.
\<close>

fun rx_scan :: "rx \<Rightarrow> nat \<Rightarrow> string \<Rightarrow> (char + string \<times> caps) list" where
  "rx_scan r k [] = []"
| "rx_scan r (Suc k) (x # t) = rx_scan r k t"
| "rx_scan r 0 (x # t) =
     (case ends r (x # t, []) of
        [] \<Rightarrow> Inl x # rx_scan r 0 t
      | (s', c) # _ \<Rightarrow>
          (let n = length (x # t) - length s'
           in if n = 0 then Inl x # rx_scan r 0 t
              else Inr (take n (x # t), c) # rx_scan r (n - 1) t))"

text \<open>The successive matches: the loop \<^verbatim>\<open>while ((match = r.exec(s)) !== null)\<close>.\<close>

definition rx_exec_all :: "rx \<Rightarrow> string \<Rightarrow> (string \<times> caps) list" where
  "rx_exec_all r s = [m. Inr m \<leftarrow> rx_scan r 0 s]"

text \<open>\<^verbatim>\<open>s.replace(r, rep)\<close> with the global flag and a replacement without \<^verbatim>\<open>$\<close>.\<close>

definition rx_replace_all :: "rx \<Rightarrow> string \<Rightarrow> string \<Rightarrow> string" where
  "rx_replace_all r rep s =
     concat (map (\<lambda>p. case p of Inl x \<Rightarrow> [x] | Inr m \<Rightarrow> rep) (rx_scan r 0 s))"

section \<open>The opening catalog (chess-fetcher.js)\<close>

subsection \<open>splitEcoUrl\<close>

record split_result =
  baseSlug :: string
  extraMoves :: string

text \<open>
  \<^verbatim>\<open>/with-(\d+)-(O-O(?:-O)?|[a-zA-Z0-9]+)(?:-and-(\d+)-(O-O(?:-O)?|[a-zA-Z0-9]+))?/g\<close>
\<close>

definition withRegex :: rx where
  "withRegex = seqs
     [Lit ''with-'', Grp 1 (Rep is_digit 1 None), Lit ''-'',
      Grp 2 (Alt (Seq (Lit ''O-O'') (Opt (Lit ''-O''))) (Rep is_alnum 1 None)),
      Opt (seqs [Lit ''-and-'', Grp 3 (Rep is_digit 1 None), Lit ''-'',
                 Grp 4 (Alt (Seq (Lit ''O-O'') (Opt (Lit ''-O''))) (Rep is_alnum 1 None))])]"

text \<open>\<^verbatim>\<open>/(-\d+\.{0,3}[a-zA-Z]|\.{3}\d+\.|\.{3}[a-zA-Z])/\<close>\<close>

definition is_dot :: "char \<Rightarrow> bool" where
  "is_dot ch = (ch = CHR ''.'')"

definition movePattern :: rx where
  "movePattern = Grp 1 (alts
     [seqs [Lit ''-'', Rep is_digit 1 None, Rep is_dot 0 (Some 3), Cls is_alpha],
      seqs [Rep is_dot 3 (Some 3), Rep is_digit 1 None, Lit ''.''],
      seqs [Rep is_dot 3 (Some 3), Cls is_alpha]])"

definition placeholder :: "nat \<Rightarrow> string" where
  "placeholder i = ''__WITH_'' @ show_nat i @ ''__''"

text \<open>
  The replacement callback of the first \<^verbatim>\<open>replace\<close>: each match is appended to
  \<^verbatim>\<open>withPatterns\<close> and replaced by the placeholder that carries its index.
\<close>

fun protect :: "(char + string \<times> caps) list \<Rightarrow> string list \<Rightarrow> string \<times> string list" where
  "protect [] withPatterns = ([], withPatterns)"
| "protect (Inl x # ps) withPatterns =
     (let (out, wp) = protect ps withPatterns in (x # out, wp))"
| "protect (Inr (m, c) # ps) withPatterns =
     (let (out, wp) = protect ps (withPatterns @ [m])
      in (placeholder (length withPatterns) @ out, wp))"

text \<open>
  \<^verbatim>\<open>withPatterns.forEach((pattern, i) => baseSlug = baseSlug.replace(`__WITH_${i}__`, pattern))\<close>.
  A protected text is made of letters, digits and hyphens, so it holds no \<^verbatim>\<open>$\<close>.
\<close>

fun restore :: "string list \<Rightarrow> nat \<Rightarrow> string \<Rightarrow> string" where
  "restore [] i b = b"
| "restore (pattern # ps) i b = restore ps (Suc i) (js_replace_first (placeholder i) pattern b)"

definition splitEcoUrl :: "string \<Rightarrow> split_result" where
  "splitEcoUrl ecoUrl =
     (if ecoUrl = [] \<or> \<not> js_includes ''chess.com/openings/'' ecoUrl
      then \<lparr>baseSlug = [], extraMoves = []\<rparr>
      else
        let fullSlug = (case js_split ''/openings/'' ecoUrl of _ # p # _ \<Rightarrow> p | _ \<Rightarrow> [])
        in if fullSlug = [] then \<lparr>baseSlug = [], extraMoves = []\<rparr>
           else
             let (slug, withPatterns) = protect (rx_scan withRegex 0 fullSlug) [];
                 (base, extra) =
                   (case rx_search movePattern slug of
                      Some (i, m, c) \<Rightarrow> (take i slug, drop i slug)
                    | None \<Rightarrow> (slug, []))
             in \<lparr>baseSlug = toLowerCase (restore withPatterns 0 base), extraMoves = extra\<rparr>)"

subsection \<open>formatExtraMoves\<close>

text \<open>\<^verbatim>\<open>/^[-\.]+/\<close>, \<^verbatim>\<open>/^(\d+)(\.{0,3})$/\<close> and \<^verbatim>\<open>/^\d+\.{0,3}$/\<close>, each tried at the start.\<close>

definition leadRegex :: rx where
  "leadRegex = Rep (\<lambda>ch. ch = CHR ''-'' \<or> ch = CHR ''.'') 1 None"

definition moveNumRegex :: rx where
  "moveNumRegex = seqs [Grp 1 (Rep is_digit 1 None), Grp 2 (Rep is_dot 0 (Some 3)), Eos]"

definition moveNumTest :: rx where
  "moveNumTest = seqs [Rep is_digit 1 None, Rep is_dot 0 (Some 3), Eos]"

definition is_move_num :: "string \<Rightarrow> bool" where
  "is_move_num token = (rx_match_start moveNumTest token \<noteq> None)"

definition grp_text :: "caps \<Rightarrow> nat \<Rightarrow> string" where
  "grp_text c i = (case grp c i of Some t \<Rightarrow> t | None \<Rightarrow> ''undefined'')"

text \<open>
  The \<^verbatim>\<open>while (i < tokens.length)\<close> loop; the argument is \<^verbatim>\<open>tokens.slice(i)\<close> and the
  result is what the loop pushes on \<^verbatim>\<open>moves\<close> from there on.
\<close>

fun format_tokens :: "string list \<Rightarrow> string list" where
  "format_tokens [] = []"
| "format_tokens (token # rest) =
     (case rx_match_start moveNumRegex token of
        Some (m, c) \<Rightarrow>
          (if grp_text c 2 = ''...'' then
             (grp_text c 1 @ ''...'') #
               (case rest of
                  [] \<Rightarrow> []
                | t1 # rest1 \<Rightarrow>
                    if \<not> is_move_num t1 then t1 # format_tokens rest1 else format_tokens rest)
           else
             (grp_text c 1 @ ''.'') #
               (case rest of
                  [] \<Rightarrow> []
                | t1 # rest1 \<Rightarrow>
                    if \<not> is_move_num t1 then
                      t1 # (case rest1 of
                              [] \<Rightarrow> []
                            | t2 # rest2 \<Rightarrow>
                                if \<not> is_move_num t2 then t2 # format_tokens rest2
                                else format_tokens rest1)
                    else format_tokens rest))
      | None \<Rightarrow> token # format_tokens rest)"

definition formatExtraMoves :: "string \<Rightarrow> string" where
  "formatExtraMoves extraMovesSlug =
     (if extraMovesSlug = [] \<or> js_trim extraMovesSlug = [] then []
      else
        let trimmed = js_trim extraMovesSlug;
            slug = (case rx_match_start leadRegex trimmed of
                      Some (m, c) \<Rightarrow> drop (length m) trimmed
                    | None \<Rightarrow> trimmed)
        in if slug = [] then []
           else
             let tokens = filter (\<lambda>t. t \<noteq> []) (js_split ''-'' slug)
             in if tokens = [] then [] else js_join '' '' (format_tokens tokens))"

subsection \<open>lookupOpening\<close>

text \<open>
  The catalog is a \<^verbatim>\<open>Map\<close> from slug to entry: \<^verbatim>\<open>db.has(k)\<close> is \<open>db k \<noteq> None\<close> and
  \<^verbatim>\<open>db.get(k)\<close> is \<open>db k\<close>; the result \<^verbatim>\<open>null\<close> is \<open>None\<close>.
\<close>

definition lookupOpening :: "(string \<rightharpoonup> 'e) \<Rightarrow> string \<Rightarrow> 'e option" where
  "lookupOpening db slug =
     (if db slug \<noteq> None then db slug
      else
        let withoutWith = (case js_split ''-with-'' slug of p # _ \<Rightarrow> p | [] \<Rightarrow> [])
        in if withoutWith \<noteq> [] \<and> withoutWith \<noteq> slug \<and> db withoutWith \<noteq> None
           then db withoutWith
           else None)"

subsection \<open>loadOpeningsDb\<close>

text \<open>
  An entry of the catalog.  The properties \<^verbatim>\<open>slug\<close> and \<^verbatim>\<open>family\<close> of the source are the
  fields \<open>entry_slug\<close> and \<open>entry_family\<close>.
\<close>

record opening_entry =
  fullName :: string
  entry_slug :: string
  entry_family :: string
  baseName :: string
  var1 :: string
  var2 :: string
  var3 :: string
  var4 :: string
  var5 :: string
  var6 :: string

text \<open>
  A row of the table \<^verbatim>\<open>openings\<close>, whose columns are all declared \<^verbatim>\<open>TEXT\<close>
  (import-openings-tsv.js): a column holds a string or \<^verbatim>\<open>NULL\<close>.
\<close>

record row =
  trim_slug :: "string option"
  full_name :: "string option"
  family :: "string option"
  base_name :: "string option"
  variation_1 :: "string option"
  variation_2 :: "string option"
  variation_3 :: "string option"
  variation_4 :: "string option"
  variation_5 :: "string option"
  variation_6 :: "string option"

text \<open>\<^verbatim>\<open>String(x || '')\<close> for a string or \<^verbatim>\<open>null\<close>.\<close>

definition text_or_empty :: "string option \<Rightarrow> string" where
  "text_or_empty x = (case x of None \<Rightarrow> [] | Some t \<Rightarrow> t)"

type_synonym catalog = "string \<rightharpoonup> opening_entry"

text \<open>The loop \<^verbatim>\<open>for (const row of rows)\<close> on the local \<^verbatim>\<open>cache\<close>.\<close>

fun fill_cache :: "row list \<Rightarrow> catalog \<Rightarrow> catalog" where
  "fill_cache [] cache = cache"
| "fill_cache (r # rows) cache =
     (let trimSlug = toLowerCase (js_trim (text_or_empty (trim_slug r)))
      in if trimSlug = [] then fill_cache rows cache
         else fill_cache rows (cache(trimSlug \<mapsto>
           \<lparr>fullName = text_or_empty (full_name r),
            entry_slug = trimSlug,
            entry_family = text_or_empty (family r),
            baseName = text_or_empty (base_name r),
            var1 = text_or_empty (variation_1 r),
            var2 = text_or_empty (variation_2 r),
            var3 = text_or_empty (variation_3 r),
            var4 = text_or_empty (variation_4 r),
            var5 = text_or_empty (variation_5 r),
            var6 = text_or_empty (variation_6 r)\<rparr>)))"

text \<open>
  The module variables \<^verbatim>\<open>openingsCache\<close> and \<^verbatim>\<open>lastCacheTime\<close>, \<^verbatim>\<open>null\<close> being
  \<open>None\<close>; times are the milliseconds \<^verbatim>\<open>Date.now()\<close> returns.
\<close>

record cache_state =
  openingsCache :: "catalog option"
  lastCacheTime :: "int option"

definition CACHE_DURATION_MS :: int where
  "CACHE_DURATION_MS = 5 * 60 * 1000"

text \<open>
  \<^verbatim>\<open>openingsCache && lastCacheTime && (now - lastCacheTime) < CACHE_DURATION_MS\<close>: a
  \<^verbatim>\<open>Map\<close> is truthy also when it is empty, a number is truthy when it is not 0.
\<close>

definition cache_valid :: "cache_state \<Rightarrow> int \<Rightarrow> bool" where
  "cache_valid st now =
     (case openingsCache st of
        None \<Rightarrow> False
      | Some c \<Rightarrow>
          (case lastCacheTime st of
             None \<Rightarrow> False
           | Some t \<Rightarrow> t \<noteq> 0 \<and> now - t < CACHE_DURATION_MS))"

text \<open>
  What the backing store answers: the file is missing (\<^verbatim>\<open>fs.existsSync\<close> is false), the
  database cannot be opened, the query fails, or the query returns its rows.
\<close>

datatype store = Missing | OpenError | AllError | AllRows "row list"

datatype store_op = ExistsSync | OpenDatabase | SelectAll | CloseDatabase

record load_result =
  loaded :: catalog
  state_after :: cache_state
  store_ops :: "store_op list"

definition store_result :: "cache_state \<Rightarrow> int \<Rightarrow> catalog \<Rightarrow> store_op list \<Rightarrow> load_result" where
  "store_result st now cache ops =
     \<lparr>loaded = cache,
      state_after = st\<lparr>openingsCache := Some cache, lastCacheTime := Some now\<rparr>,
      store_ops = ops\<rparr>"

text \<open>
  One awaited call of \<^verbatim>\<open>loadOpeningsDb()\<close> at time \<open>now\<close>: the mapping the promise
  resolves to, the module variables afterwards and the operations made on the store.  The
  rows are put into the local \<^verbatim>\<open>cache\<close> and the module variables are assigned in one
  callback, which runs to its end before any other code of the program.
\<close>

definition loadOpeningsDb :: "cache_state \<Rightarrow> int \<Rightarrow> store \<Rightarrow> load_result" where
  "loadOpeningsDb st now db =
     (if cache_valid st now
      then \<lparr>loaded = (case openingsCache st of Some c \<Rightarrow> c | None \<Rightarrow> Map.empty),
            state_after = st, store_ops = []\<rparr>
      else
        (case db of
           Missing \<Rightarrow> store_result st now Map.empty [ExistsSync]
         | OpenError \<Rightarrow> store_result st now Map.empty [ExistsSync, OpenDatabase]
         | AllError \<Rightarrow>
             store_result st now Map.empty [ExistsSync, OpenDatabase, SelectAll, CloseDatabase]
         | AllRows rows \<Rightarrow>
             store_result st now (fill_cache rows Map.empty)
               [ExistsSync, OpenDatabase, SelectAll, CloseDatabase]))"

definition reads :: "store_op list \<Rightarrow> nat" where
  "reads ops = length (filter (\<lambda>operation. operation = SelectAll) ops)"

subsection \<open>parseMovesAndClocks\<close>

text \<open>
  The pattern \<^verbatim>\<open>movePattern\<close> of \<^verbatim>\<open>parseMovesAndClocks\<close>, called \<open>clockPattern\<close>
  here; \<open>clockMove\<close> is its first group and \<open>clockTail\<close> is what follows the group:
  \<^verbatim>\<open>/([NBRQK]?[a-h]?[1-8]?x?[a-h][1-8](?:=[NBRQK])?|O-O(?:-O)?)\s*\{?\[%clk\s+(\d+):(\d+):(\d+)(?:\.(\d+))?\]?\}?/g\<close>
\<close>

definition is_piece :: "char \<Rightarrow> bool" where
  "is_piece ch = (ch \<in> set ''NBRQK'')"

definition is_file :: "char \<Rightarrow> bool" where
  "is_file ch = (ch \<in> set ''abcdefgh'')"

definition is_rank :: "char \<Rightarrow> bool" where
  "is_rank ch = (ch \<in> set ''12345678'')"

definition clockMove :: rx where
  "clockMove = Alt
     (seqs [Opt (Cls is_piece), Opt (Cls is_file), Opt (Cls is_rank), Opt (Lit ''x''),
            Cls is_file, Cls is_rank, Opt (Seq (Lit ''='') (Cls is_piece))])
     (Seq (Lit ''O-O'') (Opt (Lit ''-O'')))"

definition clockTail :: rx where
  "clockTail = seqs
     [Rep js_space 0 None, Opt (Lit ''{''), Lit ''[%clk'', Rep js_space 1 None,
      Grp 2 (Rep is_digit 1 None), Lit '':'', Grp 3 (Rep is_digit 1 None), Lit '':'',
      Grp 4 (Rep is_digit 1 None), Opt (Seq (Lit ''.'') (Grp 5 (Rep is_digit 1 None))),
      Opt (Lit '']''), Opt (Lit ''}'')]"

definition clockPattern :: rx where
  "clockPattern = Seq (Grp 1 clockMove) clockTail"

text \<open>\<^verbatim>\<open>parseInt(t) || 0\<close> for a group of decimal digits or \<^verbatim>\<open>undefined\<close>.\<close>

definition digit_value :: "char \<Rightarrow> nat" where
  "digit_value ch = (case map_of (zip ''0123456789'' [0 ..< 10]) ch of Some d \<Rightarrow> d | None \<Rightarrow> 0)"

definition parse_digits :: "string \<Rightarrow> nat" where
  "parse_digits t = foldl (\<lambda>n ch. 10 * n + digit_value ch) 0 t"

definition parseInt_or_0 :: "string option \<Rightarrow> nat" where
  "parseInt_or_0 g = (case g of None \<Rightarrow> 0 | Some t \<Rightarrow> parse_digits t)"

text \<open>
  The body of the extraction loop: one entry \<^verbatim>\<open>{move, clock}\<close> for a match.  The clock
  is the exact sum here; the source computes it in double-precision floating point.
\<close>

definition clock_entry :: "string \<times> caps \<Rightarrow> string \<times> rat" where
  "clock_entry m =
     (let c = snd m;
          hours = parseInt_or_0 (grp c 2);
          minutes = parseInt_or_0 (grp c 3);
          seconds = parseInt_or_0 (grp c 4);
          deciseconds = parseInt_or_0 (grp c 5)
      in (grp_text c 1,
          of_nat (hours * 3600 + minutes * 60 + seconds) + of_nat deciseconds / 10))"

definition movesData :: "string \<Rightarrow> (string \<times> rat) list" where
  "movesData moveSection = map clock_entry (rx_exec_all clockPattern moveSection)"

text \<open>\<^verbatim>\<open>/\d+\.\s+\S+(\s+\S+)?/g\<close> and \<^verbatim>\<open>/\S+/g\<close>, for the count of plies.\<close>

definition not_space :: "char \<Rightarrow> bool" where
  "not_space ch = (\<not> js_space ch)"

definition plyRegex :: rx where
  "plyRegex = seqs
     [Rep is_digit 1 None, Lit ''.'', Rep js_space 1 None, Rep not_space 1 None,
      Opt (Grp 1 (Seq (Rep js_space 1 None) (Rep not_space 1 None)))]"

definition plyCount :: "string \<Rightarrow> nat" where
  "plyCount moveSection =
     foldl (\<lambda>count m. count + (length (rx_exec_all (Rep not_space 1 None) (fst m)) - 1)) 0
       (rx_exec_all plyRegex moveSection)"

text \<open>
  The result: \<open>clock_moves\<close> is the list that the source serialises into the property
  \<^verbatim>\<open>moves\<close> (\<open>None\<close> is \<^verbatim>\<open>null\<close>), \<open>full_moves\<close> is the property \<^verbatim>\<open>totalMoves\<close>.
  No call in the \<^verbatim>\<open>try\<close> block throws on a string, so the \<^verbatim>\<open>catch\<close> branch is not taken.
\<close>

record moves_and_clocks =
  clock_moves :: "(string \<times> rat) list option"
  plies :: nat
  full_moves :: nat

definition parseMovesAndClocks :: "string \<Rightarrow> moves_and_clocks" where
  "parseMovesAndClocks pgn =
     (if pgn = [] then \<lparr>clock_moves = None, plies = 0, full_moves = 0\<rparr>
      else
        let moveSection = (case js_split [nl, nl] pgn of _ # p # _ \<Rightarrow> p | _ \<Rightarrow> [])
        in \<lparr>clock_moves = Some (movesData moveSection),
            plies = plyCount moveSection,
            full_moves = (plyCount moveSection + 1) div 2\<rparr>)"

section \<open>The game analyzer (game-analyzer.js)\<close>

subsection \<open>parsePGN\<close>

text \<open>\<^verbatim>\<open>/\[(\w+)\s+"([^"]+)"\]/g\<close>\<close>

definition headerRegex :: rx where
  "headerRegex = seqs
     [Lit ''['', Grp 1 (Rep is_word 1 None), Rep js_space 1 None, Lit [dq],
      Grp 2 (Rep (\<lambda>ch. ch \<noteq> dq) 1 None), Lit [dq], Lit '']'']"

text \<open>
  The object \<^verbatim>\<open>headers\<close> is the list of its own properties with their values.  The
  assignment \<^verbatim>\<open>headers[k] = v\<close> adds or overwrites the property \<open>k\<close>, except that on a
  plain object the key \<^verbatim>\<open>__proto__\<close> is the accessor of \<^verbatim>\<open>Object.prototype\<close>, whose
  setter ignores a string: the assignment then changes nothing.
\<close>

definition set_header :: "string \<Rightarrow> string \<Rightarrow> (string \<times> string) list \<Rightarrow> (string \<times> string) list" where
  "set_header k v h = (if k = ''__proto__'' then h else AList.update k v h)"

fun collect_headers :: "(string \<times> caps) list \<Rightarrow> (string \<times> string) list \<Rightarrow> (string \<times> string) list" where
  "collect_headers [] h = h"
| "collect_headers (m # ms) h =
     collect_headers ms (set_header (grp_text (snd m) 1) (grp_text (snd m) 2) h)"

text \<open>
  The loop over the lines; \<open>has_headers\<close> is \<^verbatim>\<open>Object.keys(headers).length > 0\<close>, which
  does not change during the loop.
\<close>

fun moves_section :: "bool \<Rightarrow> string list \<Rightarrow> bool \<Rightarrow> string \<Rightarrow> string" where
  "moves_section has_headers [] inMoves movesText = movesText"
| "moves_section has_headers (line # lines) inMoves movesText =
     (if js_trim line = [] then
        moves_section has_headers lines (if has_headers then True else inMoves) movesText
      else if inMoves then moves_section has_headers lines inMoves (movesText @ '' '' @ line)
      else moves_section has_headers lines inMoves movesText)"

text \<open>The chain of \<^verbatim>\<open>replace\<close> calls that cleans the move text.\<close>

definition clean_moves :: "string \<Rightarrow> string" where
  "clean_moves movesText =
     js_trim
       (rx_replace_all (Rep js_space 1 None) '' ''
         (rx_replace_all (alts [Lit ''1-0'', Lit ''0-1'', Lit ''1/2-1/2'', Lit ''*'']) []
           (rx_replace_all (Rep (\<lambda>ch. ch = CHR ''!'' \<or> ch = CHR ''?'') 1 None) []
             (rx_replace_all (Seq (Lit ''$'') (Rep is_digit 1 None)) []
               (rx_replace_all (seqs [Lit ''('', Rep (\<lambda>ch. ch \<noteq> CHR '')'') 0 None, Lit '')'']) []
                 (rx_replace_all (seqs [Lit ''{'', Rep (\<lambda>ch. ch \<noteq> CHR ''}'') 0 None, Lit ''}'']) []
                   movesText))))))"

text \<open>
  The pattern \<^verbatim>\<open>movePattern\<close> of \<^verbatim>\<open>parsePGN\<close>, called \<open>sanPattern\<close> here since
  \<^verbatim>\<open>splitEcoUrl\<close> has a \<^verbatim>\<open>movePattern\<close> of its own:
  \<^verbatim>\<open>/\d+\.\s*([a-h1-8NBRQKOx=+#-]+)\s*([a-h1-8NBRQKOx=+#-]+)?/g\<close>
\<close>

definition is_san :: "char \<Rightarrow> bool" where
  "is_san ch = (ch \<in> set ''abcdefgh12345678NBRQKOx=+#-'')"

definition sanPattern :: rx where
  "sanPattern = seqs
     [Rep is_digit 1 None, Lit ''.'', Rep js_space 0 None, Grp 1 (Rep is_san 1 None),
      Rep js_space 0 None, Opt (Grp 2 (Rep is_san 1 None))]"

text \<open>\<^verbatim>\<open>if (match[1]) moves.push(match[1]); if (match[2]) moves.push(match[2]);\<close>\<close>

definition pushed :: "string option \<Rightarrow> string list" where
  "pushed g = (case g of None \<Rightarrow> [] | Some t \<Rightarrow> if t = [] then [] else [t])"

definition extract_moves :: "string \<Rightarrow> string list" where
  "extract_moves movesText =
     concat (map (\<lambda>m. pushed (grp (snd m) 1) @ pushed (grp (snd m) 2))
       (rx_exec_all sanPattern movesText))"

record pgn_result =
  headers :: "(string \<times> string) list"
  moves :: "string list"

definition parsePGN :: "string \<Rightarrow> pgn_result" where
  "parsePGN pgn =
     (if pgn = [] then \<lparr>headers = [], moves = []\<rparr>
      else
        let hs = collect_headers (rx_exec_all headerRegex pgn) [];
            movesText = moves_section (hs \<noteq> []) (js_split [nl] pgn) False []
        in \<lparr>headers = hs, moves = extract_moves (clean_moves movesText)\<rparr>)"

subsection \<open>analyzeMoves\<close>

record stats =
  totalMoves :: nat
  captures :: nat
  checks :: nat
  checkmates :: nat
  castles :: nat
  pawnMoves :: nat
  pieceMoves :: nat
  queenMoves :: nat
  rookMoves :: nat
  bishopMoves :: nat
  knightMoves :: nat
  kingMoves :: nat
  promotions :: nat
  whiteMoves :: "string list"
  blackMoves :: "string list"

text \<open>\<^verbatim>\<open>/^[a-h]/.test(move)\<close>\<close>

definition starts_with_file :: "string \<Rightarrow> bool" where
  "starts_with_file mv = (case mv of [] \<Rightarrow> False | ch # _ \<Rightarrow> is_file ch)"

text \<open>The three parts of the loop body, in the order of the source.\<close>

definition push_side :: "nat \<Rightarrow> string \<Rightarrow> stats \<Rightarrow> stats" where
  "push_side i mv st =
     (if i mod 2 = 0 then st\<lparr>whiteMoves := whiteMoves st @ [mv]\<rparr>
      else st\<lparr>blackMoves := blackMoves st @ [mv]\<rparr>)"

definition count_features :: "string \<Rightarrow> stats \<Rightarrow> stats" where
  "count_features mv st =
     (let st1 = (if js_includes ''x'' mv then st\<lparr>captures := captures st + 1\<rparr> else st);
          st2 = (if js_includes ''+'' mv then st1\<lparr>checks := checks st1 + 1\<rparr> else st1);
          st3 = (if js_includes ''#'' mv then st2\<lparr>checkmates := checkmates st2 + 1\<rparr> else st2);
          st4 = (if js_includes ''O-O'' mv then st3\<lparr>castles := castles st3 + 1\<rparr> else st3)
      in if js_includes ''='' mv then st4\<lparr>promotions := promotions st4 + 1\<rparr> else st4)"

definition count_piece :: "string \<Rightarrow> stats \<Rightarrow> stats" where
  "count_piece mv st =
     (if starts_with_file mv then st\<lparr>pawnMoves := pawnMoves st + 1\<rparr>
      else if starts_with ''N'' mv then st\<lparr>knightMoves := knightMoves st + 1\<rparr>
      else if starts_with ''B'' mv then st\<lparr>bishopMoves := bishopMoves st + 1\<rparr>
      else if starts_with ''R'' mv then st\<lparr>rookMoves := rookMoves st + 1\<rparr>
      else if starts_with ''Q'' mv then st\<lparr>queenMoves := queenMoves st + 1\<rparr>
      else if starts_with ''K'' mv then st\<lparr>kingMoves := kingMoves st + 1\<rparr>
      else st)"

text \<open>The loop \<^verbatim>\<open>for (let i = 0; i < moves.length; i++)\<close>, from index \<open>i\<close> on.\<close>

fun analyze_from :: "nat \<Rightarrow> string list \<Rightarrow> stats \<Rightarrow> stats" where
  "analyze_from i [] st = st"
| "analyze_from i (mv # rest) st =
     analyze_from (Suc i) rest (count_piece mv (count_features mv (push_side i mv st)))"

definition initial_stats :: "string list \<Rightarrow> stats" where
  "initial_stats mvs =
     \<lparr>totalMoves = length mvs, captures = 0, checks = 0, checkmates = 0, castles = 0,
      pawnMoves = 0, pieceMoves = 0, queenMoves = 0, rookMoves = 0, bishopMoves = 0,
      knightMoves = 0, kingMoves = 0, promotions = 0, whiteMoves = [], blackMoves = []\<rparr>"

definition analyzeMoves :: "string list \<Rightarrow> stats" where
  "analyzeMoves mvs =
     (let st = analyze_from 0 mvs (initial_stats mvs)
      in st\<lparr>pieceMoves := knightMoves st + bishopMoves st + rookMoves st + queenMoves st
                            + kingMoves st\<rparr>)"

section \<open>Notions used in the statements and proofs\<close>

subsection \<open>Patterns\<close>

text \<open>
  The words a pattern matches, whatever the captures and the order of the tries: every
  match the matcher finds is one of them.
\<close>

fun lang :: "rx \<Rightarrow> string set" where
  "lang (Lit l) = {l}"
| "lang (Cls p) = {[x] | x. p x}"
| "lang (Rep p lo hi) =
     {w. list_all p w \<and> lo \<le> length w \<and> (case hi of None \<Rightarrow> True | Some h \<Rightarrow> length w \<le> h)}"
| "lang (Seq a b) = {u @ v | u v. u \<in> lang a \<and> v \<in> lang b}"
| "lang (Alt a b) = lang a \<union> lang b"
| "lang (Opt a) = insert [] (lang a)"
| "lang (Grp i a) = lang a"
| "lang Eos = {[]}"

text \<open>The match the matcher reports at a position: the head of the list of ends.\<close>

definition first_end :: "rx \<Rightarrow> mstate \<Rightarrow> mstate option" where
  "first_end r st = (case ends r st of [] \<Rightarrow> None | x # _ \<Rightarrow> Some x)"

text \<open>
  The text that a stretch of a walk with the global flag covers: its characters outside the
  matches and the texts of its matches, in order.
\<close>

definition pieces_text :: "(char + string \<times> caps) list \<Rightarrow> string" where
  "pieces_text ps = concat (map (\<lambda>p. case p of Inl x \<Rightarrow> [x] | Inr m \<Rightarrow> fst m) ps)"

text \<open>The indices of the capture groups of a pattern.\<close>

fun groups :: "rx \<Rightarrow> nat set" where
  "groups (Seq a b) = groups a \<union> groups b"
| "groups (Alt a b) = groups a \<union> groups b"
| "groups (Opt a) = groups a"
| "groups (Grp i a) = insert i (groups a)"
| "groups r = {}"

text \<open>
  The characters that can occur in a match, the patterns that can match the empty string,
  the characters a match can end with, and a lower bound of the length of a match.
\<close>

fun allowed :: "rx \<Rightarrow> char \<Rightarrow> bool" where
  "allowed (Lit l) x = (x \<in> set l)"
| "allowed (Cls p) x = p x"
| "allowed (Rep p lo hi) x = p x"
| "allowed (Seq a b) x = (allowed a x \<or> allowed b x)"
| "allowed (Alt a b) x = (allowed a x \<or> allowed b x)"
| "allowed (Opt a) x = allowed a x"
| "allowed (Grp i a) x = allowed a x"
| "allowed Eos x = False"

fun nullable :: "rx \<Rightarrow> bool" where
  "nullable (Lit l) = (l = [])"
| "nullable (Cls p) = False"
| "nullable (Rep p lo hi) = (lo = 0)"
| "nullable (Seq a b) = (nullable a \<and> nullable b)"
| "nullable (Alt a b) = (nullable a \<or> nullable b)"
| "nullable (Opt a) = True"
| "nullable (Grp i a) = nullable a"
| "nullable Eos = True"

fun final :: "rx \<Rightarrow> char \<Rightarrow> bool" where
  "final (Lit l) x = (l \<noteq> [] \<and> x = last l)"
| "final (Cls p) x = p x"
| "final (Rep p lo hi) x = p x"
| "final (Seq a b) x = (final b x \<or> (nullable b \<and> final a x))"
| "final (Alt a b) x = (final a x \<or> final b x)"
| "final (Opt a) x = final a x"
| "final (Grp i a) x = final a x"
| "final Eos x = False"

fun min_len :: "rx \<Rightarrow> nat" where
  "min_len (Lit l) = length l"
| "min_len (Cls p) = 1"
| "min_len (Rep p lo hi) = lo"
| "min_len (Seq a b) = min_len a + min_len b"
| "min_len (Alt a b) = min (min_len a) (min_len b)"
| "min_len (Opt a) = 0"
| "min_len (Grp i a) = min_len a"
| "min_len Eos = 0"

subsection \<open>Strings and moves\<close>

text \<open>
  The part of a string before the first occurrence of a separator (the whole string when
  the separator does not occur).
\<close>

fun before_first :: "string \<Rightarrow> string \<Rightarrow> string" where
  "before_first sep [] = []"
| "before_first sep (x # t) = (if starts_with sep (x # t) then [] else x # before_first sep t)"

text \<open>
  The number of piece types whose textual test a move passes: starting with a file letter
  (pawn) or with one of the letters N, B, R, Q, K.
\<close>

definition piece_letters :: "string \<Rightarrow> nat" where
  "piece_letters mv = length (filter (\<lambda>p. p mv)
     [starts_with_file, starts_with ''N'', starts_with ''B'', starts_with ''R'',
      starts_with ''Q'', starts_with ''K''])"

text \<open>
  The start of a catalog URL, and the characters of an opening name in it: letters and
  hyphens.
\<close>

definition catalog_site :: string where
  "catalog_site = ''https://www.chess.com/openings/''"

definition slug_char :: "char \<Rightarrow> bool" where
  "slug_char ch = (is_alpha ch \<or> ch = CHR ''-'')"

subsection \<open>PGN texts\<close>

text \<open>
  The lines of a text that form its move section: the lines that are not blank, after the
  first blank line.
\<close>

definition move_lines :: "string list \<Rightarrow> string list" where
  "move_lines lines =
     filter (\<lambda>l. js_trim l \<noteq> []) (dropWhile (\<lambda>l. js_trim l \<noteq> []) lines)"

text \<open>
  A tag pair \<^verbatim>\<open>[Name "Value"]\<close> as a line of text.  A tag name of PGN is a symbol that
  starts with a letter or a digit and goes on with letters, digits and underscores; the
  values considered are not empty and hold no double quote.  A header block, as PGN is
  exported, is one pair on each line.
\<close>

definition tag_line :: "string \<Rightarrow> string \<Rightarrow> string" where
  "tag_line name val = ''['' @ name @ '' '' @ [dq] @ val @ [dq] @ '']''"

definition tag_name :: "string \<Rightarrow> bool" where
  "tag_name n = (case n of [] \<Rightarrow> False | x # _ \<Rightarrow> is_alnum x \<and> list_all is_word n)"

definition tag_value :: "string \<Rightarrow> bool" where
  "tag_value v = (v \<noteq> [] \<and> list_all (\<lambda>ch. ch \<noteq> dq) v)"

definition tag_pair :: "string \<times> string \<Rightarrow> bool" where
  "tag_pair t = (tag_name (fst t) \<and> tag_value (snd t))"

definition render_tags :: "(string \<times> string) list \<Rightarrow> string" where
  "render_tags tags = concat (map (\<lambda>t. tag_line (fst t) (snd t) @ [nl]) tags)"

text \<open>The value of the last pair with a given name.\<close>

definition last_value :: "(string \<times> string) list \<Rightarrow> string \<Rightarrow> string option" where
  "last_value tags n =
     (case filter (\<lambda>t. fst t = n) tags of [] \<Rightarrow> None | t # ts \<Rightarrow> Some (snd (last (t # ts))))"

text \<open>The match of the header pattern on the line of a pair: its text and its two groups.\<close>

definition tag_match :: "string \<times> string \<Rightarrow> string \<times> caps" where
  "tag_match t = (tag_line (fst t) (snd t), [(2, snd t), (1, fst t)])"

subsection \<open>Runs of the catalog loader\<close>

text \<open>
  The module variables when the module is loaded (\<^verbatim>\<open>let openingsCache = null\<close>,
  \<^verbatim>\<open>let lastCacheTime = null\<close>), and a run of awaited calls of \<^verbatim>\<open>loadOpeningsDb()\<close>,
  each at its time and with the answer the store gives then.
\<close>

definition initial_cache :: cache_state where
  "initial_cache = \<lparr>openingsCache = None, lastCacheTime = None\<rparr>"

fun run_calls :: "cache_state \<Rightarrow> (int \<times> store) list \<Rightarrow> load_result list" where
  "run_calls st [] = []"
| "run_calls st (call # calls) =
     loadOpeningsDb st (fst call) (snd call)
       # run_calls (state_after (loadOpeningsDb st (fst call) (snd call))) calls"

text \<open>A mapping is built from a set of store answers: it is empty or holds all rows of one.\<close>

definition built_from :: "store set \<Rightarrow> catalog \<Rightarrow> bool" where
  "built_from answers c =
     (c = Map.empty \<or> (\<exists>rows. AllRows rows \<in> answers \<and> c = fill_cache rows Map.empty))"

text \<open>
  What a row of the table stands for in the catalog: its key (the slug, trimmed and
  lower-cased; a row with an empty key stands for nothing) and its entry.  The catalog of a
  list of rows, as a list of pairs in the order of the rows.
\<close>

definition row_key :: "row \<Rightarrow> string" where
  "row_key r = toLowerCase (js_trim (text_or_empty (trim_slug r)))"

definition row_entry :: "row \<Rightarrow> opening_entry" where
  "row_entry r =
     \<lparr>fullName = text_or_empty (full_name r),
      entry_slug = row_key r,
      entry_family = text_or_empty (family r),
      baseName = text_or_empty (base_name r),
      var1 = text_or_empty (variation_1 r),
      var2 = text_or_empty (variation_2 r),
      var3 = text_or_empty (variation_3 r),
      var4 = text_or_empty (variation_4 r),
      var5 = text_or_empty (variation_5 r),
      var6 = text_or_empty (variation_6 r)\<rparr>"

definition catalog_pairs :: "row list \<Rightarrow> (string \<times> opening_entry) list" where
  "catalog_pairs rows =
     map (\<lambda>r. (row_key r, row_entry r)) (filter (\<lambda>r. row_key r \<noteq> []) rows)"

subsection \<open>Concrete inputs\<close>

definition example_rows :: "row list" where
  "example_rows =
     [\<lparr>trim_slug = Some ''Italian-Game'', full_name = Some ''Italian Game'',
       family = Some ''Italian Game'', base_name = Some ''Italian Game'',
       variation_1 = None, variation_2 = None, variation_3 = None,
       variation_4 = None, variation_5 = None, variation_6 = None\<rparr>]"

definition example_entry :: opening_entry where
  "example_entry =
     \<lparr>fullName = ''Italian Game'', entry_slug = ''italian-game'',
      entry_family = ''Italian Game'', baseName = ''Italian Game'',
      var1 = [], var2 = [], var3 = [], var4 = [], var5 = [], var6 = []\<rparr>"


definition pgn_without_tags :: string where
  "pgn_without_tags = ''Game 1'' @ [nl, nl] @ ''1. e4 e5 2. Nf3''"

definition example_tags :: "(string \<times> string) list" where
  "example_tags = [(''Event'', ''Live Chess''), (''White'', ''a''), (''Event'', ''Rated'')]"

definition example_movetext :: string where
  "example_movetext =
     [nl] @ ''1. e4 {[%clk 0:02:59.9]} 1... e5 {[%clk 0:02:58]} 2. Nf3+ {[%clk 0:02:57]}''"

definition example_clock_text :: string where
  "example_clock_text = '' 0:02:57]} 2... Nc6 {[%clk 0:02:55.3]}''"

definition example_clock_prefix :: string where
  "example_clock_prefix = ''1. e4 {[%clk 0:02:59.9]} 1... e5 {[%clk 0:02:58]} 2. Nf3''"

section \<open>Properties of the matcher\<close>

text \<open>
  Every end the matcher lists is a word of the pattern followed by the text left over
  (\<open>ends_sound\<close>), so a text none of whose prefixes is such a word has no match.  The
  other lemmas say what the head of the list is when each part of a sequence succeeds at
  its first try, how a walk with the global flag goes on after a match and over a stretch
  without matches, and what the captures of a match are.
\<close>

lemma take_run: "k \<le> length (takeWhile p s) \<Longrightarrow> list_all p (take k s)"
proof -
  assume k: "k \<le> length (takeWhile p s)"
  have "take k s = take k (takeWhile p s @ dropWhile p s)" by simp
  also have "\<dots> = take k (takeWhile p s)" using k by (simp del: takeWhile_dropWhile_id)
  finally have "set (take k s) \<subseteq> set (takeWhile p s)" by (simp add: set_take_subset)
  then show ?thesis by (auto simp: list_all_iff dest: set_takeWhileD)
qed

lemma ends_sound:
  "(s', c') \<in> set (ends r (s, c)) \<Longrightarrow> \<exists>w \<in> lang r. s = w @ s'"
proof (induction r arbitrary: s c s' c')
  case (Lit l)
  then have "take (length l) s = l" and "s' = drop (length l) s"
    by (auto simp: starts_with_def split: if_splits)
  then have "s = l @ s'" by (metis append_take_drop_id)
  then show ?case by simp
next
  case (Cls p)
  then show ?case by (auto split: list.splits if_splits)
next
  case (Rep p lo hi)
  then obtain k where k: "lo \<le> k" "k \<le> length (takeWhile p s)" "s' = drop k s"
    and bound: "case hi of None \<Rightarrow> True | Some h \<Rightarrow> k \<le> h"
    by (auto simp: Let_def simp del: upt_Suc split: option.splits)
  have "length (takeWhile p s) \<le> length s" by (rule length_takeWhile_le)
  with k have "length (take k s) = k" by simp
  with k bound take_run [of k p s] have "take k s \<in> lang (Rep p lo hi)"
    by (simp split: option.splits)
  moreover have "s = take k s @ s'" using k by simp
  ultimately show ?case by blast
next
  case (Seq a b)
  then obtain s1 c1 where 1: "(s1, c1) \<in> set (ends a (s, c))"
    and 2: "(s', c') \<in> set (ends b (s1, c1))"
    by auto
  from Seq.IH(1) [OF 1] obtain u where u: "u \<in> lang a" "s = u @ s1" by blast
  from Seq.IH(2) [OF 2] obtain v where v: "v \<in> lang b" "s1 = v @ s'" by blast
  from u v have "u @ v \<in> lang (Seq a b)" "s = (u @ v) @ s'" by auto
  then show ?case by blast
next
  case (Alt a b)
  then show ?case by fastforce
next
  case (Opt a)
  then show ?case by fastforce
next
  case (Grp i a)
  then show ?case by fastforce
next
  case Eos
  then show ?case by (auto split: if_splits)
qed

lemma no_lang_no_end:
  "(\<And>w s'. w \<in> lang r \<Longrightarrow> s \<noteq> w @ s') \<Longrightarrow> ends r (s, c) = []"
proof (rule ccontr)
  assume no: "\<And>w s'. w \<in> lang r \<Longrightarrow> s \<noteq> w @ s'" and "ends r (s, c) \<noteq> []"
  then obtain s' c' where "(s', c') \<in> set (ends r (s, c))"
    by (cases "ends r (s, c)") auto
  from ends_sound [OF this] no show False by blast
qed

lemma first_end_Lit: "first_end (Lit l) (l @ s, c) = Some (s, c)"
  by (simp add: first_end_def starts_with_def)

lemma run_prefix:
  "list_all p w \<Longrightarrow> (case s of [] \<Rightarrow> True | x # _ \<Rightarrow> \<not> p x) \<Longrightarrow> takeWhile p (w @ s) = w"
  by (induction w) (auto split: list.splits)

lemma first_end_Rep:
  assumes "list_all p w" and "case s of [] \<Rightarrow> True | x # _ \<Rightarrow> \<not> p x" and "lo \<le> length w"
  shows "first_end (Rep p lo None) (w @ s, c) = Some (s, c)"
proof -
  from assms have run: "length (takeWhile p (w @ s)) = length w"
    by (simp add: run_prefix)
  from assms(3) have "rev [lo ..< Suc (length w)] = length w # rev [lo ..< length w]"
    by simp
  with run show ?thesis by (simp add: first_end_def Let_def del: upt_Suc)
qed

lemma first_end_Seq:
  "first_end a st = Some st1 \<Longrightarrow> first_end b st1 = Some st2 \<Longrightarrow>
   first_end (Seq a b) st = Some st2"
  by (auto simp: first_end_def split: list.splits)

lemma first_end_Grp:
  "first_end a (s, c) = Some (s', c') \<Longrightarrow>
   first_end (Grp i a) (s, c) = Some (s', (i, take (length s - length s') s) # c')"
  by (auto simp: first_end_def split: list.splits)

lemma rx_scan_skip: "rx_scan r (length u) (u @ s) = rx_scan r 0 s"
  by (induction u) simp_all

lemma rx_scan_match:
  assumes "first_end r (m @ s, []) = Some (s, c)" and "m \<noteq> []"
  shows "rx_scan r 0 (m @ s) = Inr (m, c) # rx_scan r 0 s"
proof -
  from assms(2) obtain x t where m: "m = x # t" by (cases m) auto
  from assms(1) obtain tl where e: "ends r (x # t @ s, []) = (s, c) # tl"
    by (auto simp: first_end_def m split: list.splits)
  have "rx_scan r (length t) (t @ s) = rx_scan r 0 s" by (rule rx_scan_skip)
  with e show ?thesis by (simp add: m)
qed

lemma rx_scan_no_match:
  "first_end r (x # t, []) = None \<Longrightarrow> rx_scan r 0 (x # t) = Inl x # rx_scan r 0 t"
  by (auto simp: first_end_def split: list.splits)

lemma ends_caps:
  "(s', c') \<in> set (ends r (s, c)) \<Longrightarrow> \<exists>d. c' = d @ c \<and> fst ` set d \<subseteq> groups r"
proof (induction r arbitrary: s c s' c')
  case (Lit l)
  then show ?case by (auto split: if_splits)
next
  case (Cls p)
  then show ?case by (auto split: list.splits if_splits)
next
  case (Rep p lo hi)
  then show ?case by (auto simp: Let_def simp del: upt_Suc)
next
  case (Seq a b)
  then obtain s1 c1 where 1: "(s1, c1) \<in> set (ends a (s, c))"
    and 2: "(s', c') \<in> set (ends b (s1, c1))"
    by auto
  from Seq.IH(1) [OF 1] obtain d1 where d1: "c1 = d1 @ c" "fst ` set d1 \<subseteq> groups a" by blast
  from Seq.IH(2) [OF 2] obtain d2 where d2: "c' = d2 @ c1" "fst ` set d2 \<subseteq> groups b" by blast
  from d1 d2 have "c' = (d2 @ d1) @ c" "fst ` set (d2 @ d1) \<subseteq> groups (Seq a b)" by auto
  then show ?case by blast
next
  case (Alt a b)
  then show ?case by fastforce
next
  case (Opt a)
  then show ?case by fastforce
next
  case (Grp i a)
  then obtain c1 where 1: "(s', c1) \<in> set (ends a (s, c))"
    and c': "c' = (i, take (length s - length s') s) # c1"
    by auto
  from Grp.IH [OF 1] obtain d where "c1 = d @ c" "fst ` set d \<subseteq> groups a" by blast
  with c' have "c' = ((i, take (length s - length s') s) # d) @ c"
    "fst ` set ((i, take (length s - length s') s) # d) \<subseteq> groups (Grp i a)" by auto
  then show ?case by blast
next
  case Eos
  then show ?case by (auto split: if_splits)
qed

lemma lang_allowed: "w \<in> lang r \<Longrightarrow> x \<in> set w \<Longrightarrow> allowed r x"
proof (induction r arbitrary: w)
  case (Seq a b)
  then obtain u v where w: "w = u @ v" "u \<in> lang a" "v \<in> lang b" by auto
  with Seq.prems(2) have "x \<in> set u \<or> x \<in> set v" by simp
  with Seq.IH w show ?case by auto
next
  case (Alt a b)
  then show ?case by auto
qed (auto simp: list_all_iff)

lemma lang_nullable: "[] \<in> lang r \<Longrightarrow> nullable r"
  by (induction r) auto

lemma lang_final: "w \<in> lang r \<Longrightarrow> w \<noteq> [] \<Longrightarrow> final r (last w)"
proof (induction r arbitrary: w)
  case (Seq a b)
  then obtain u v where w: "w = u @ v" "u \<in> lang a" "v \<in> lang b" by auto
  show ?case
  proof (cases "v = []")
    case True
    with w Seq.prems have "u \<noteq> []" "nullable b" by (auto intro: lang_nullable)
    with Seq.IH(1) [OF w(2)] True w show ?thesis by simp
  next
    case False
    with Seq.IH(2) [OF w(3)] w show ?thesis by simp
  qed
qed (auto simp: list_all_iff)

lemma lang_min_len: "w \<in> lang r \<Longrightarrow> min_len r \<le> length w"
proof (induction r arbitrary: w)
  case (Seq a b)
  then obtain u v where w: "w = u @ v" "u \<in> lang a" "v \<in> lang b" by auto
  with Seq.IH(1) [OF w(2)] Seq.IH(2) [OF w(3)] show ?case by simp
next
  case (Alt a b)
  then consider "w \<in> lang a" | "w \<in> lang b" by auto
  then show ?case
  proof cases
    case 1
    from Alt.IH(1) [OF 1] show ?thesis by simp
  next
    case 2
    from Alt.IH(2) [OF 2] show ?thesis by simp
  qed
qed auto

lemma ends_min_len:
  "(s', c') \<in> set (ends r (s, c)) \<Longrightarrow> length s' + min_len r \<le> length s"
proof -
  assume "(s', c') \<in> set (ends r (s, c))"
  from ends_sound [OF this] obtain w where "w \<in> lang r" "s = w @ s'" by blast
  with lang_min_len [of w r] show ?thesis by simp
qed


lemma first_occurrence:
  "x \<notin> set u \<Longrightarrow> x \<notin> set v \<Longrightarrow> u @ x # s = v @ x # t \<Longrightarrow> u = v"
proof (induction u arbitrary: v)
  case Nil
  then show ?case by (cases v) auto
next
  case (Cons a u)
  then show ?case by (cases v) auto
qed

lemma rx_scan_skip_prefix:
  "(\<And>t1 t2. u = t1 @ t2 \<Longrightarrow> t2 \<noteq> [] \<Longrightarrow> ends r (t2 @ s, []) = []) \<Longrightarrow>
   rx_scan r 0 (u @ s) = map Inl u @ rx_scan r 0 s"
proof (induction u)
  case Nil
  then show ?case by simp
next
  case (Cons x u)
  from Cons.prems [of "[]" "x # u"] have "ends r (x # u @ s, []) = []" by simp
  moreover have "rx_scan r 0 (u @ s) = map Inl u @ rx_scan r 0 s"
  proof (rule Cons.IH)
    fix t1 t2 assume "u = t1 @ t2" "t2 \<noteq> []"
    then show "ends r (t2 @ s, []) = []" using Cons.prems [of "x # t1" t2] by simp
  qed
  ultimately show ?case by simp
qed

lemma lang_seqs3:
  "w \<in> lang (seqs (a # b # c # r # rs)) \<Longrightarrow>
   \<exists>u v x y. w = u @ v @ x @ y \<and> u \<in> lang a \<and> v \<in> lang b \<and> x \<in> lang c"
proof -
  assume "w \<in> lang (seqs (a # b # c # r # rs))"
  then have "w \<in> lang (Seq a (Seq b (Seq c (seqs (r # rs)))))" by simp
  then show ?thesis by (simp only: lang.simps) blast
qed

lemma strip_spaces:
  assumes "list_all js_space ws" and "u \<noteq> []" and "\<not> js_space (last u)"
  shows "dropWhile js_space (rev (u @ ws)) = rev u"
proof -
  from assms(1) have "dropWhile js_space (rev ws @ rev u) = dropWhile js_space (rev u)"
    by (intro dropWhile_append2) (simp add: list_all_iff)
  moreover from assms(2,3) have "dropWhile js_space (rev u) = rev u"
    by (simp add: dropWhile_eq_self_iff hd_rev)
  ultimately show ?thesis by simp
qed

lemma last_spaces:
  "list_all js_space ws \<Longrightarrow> u \<noteq> [] \<Longrightarrow> last (u @ ws) = last u \<or> js_space (last (u @ ws))"
  by (cases "ws = []") (auto simp: list_all_iff)

lemma matches_skip_chars: "[m. Inr m \<leftarrow> map Inl u @ ys] = [m. Inr m \<leftarrow> ys]"
  by (induction u) simp_all

lemma matches_append: "[m. Inr m \<leftarrow> xs @ ys] = [m. Inr m \<leftarrow> xs] @ [m. Inr m \<leftarrow> ys]"
  by simp

text \<open>
  When every match that starts in a stretch of the text ends in that stretch, the walk cuts
  the stretch into pieces and goes on after it as a walk of what follows.
\<close>

lemma take_inside: "n \<le> length a \<Longrightarrow> take n (a @ b) = take n a"
  by simp

lemma rx_scan_boundary:
  assumes inside: "\<And>t1 t2 s' c e. u = t1 @ t2 \<Longrightarrow> ends r (t2 @ v, []) = (s', c) # e \<Longrightarrow>
      length v \<le> length s'"
    and k: "k \<le> length u"
  shows "\<exists>ps. rx_scan r k (u @ v) = ps @ rx_scan r 0 v \<and> pieces_text ps = drop k u"
  using assms
proof (induction u arbitrary: k)
  case Nil
  then show ?case by (simp add: pieces_text_def)
next
  case (Cons x u)
  have inside': "\<And>t1 t2 s' c e. u = t1 @ t2 \<Longrightarrow> ends r (t2 @ v, []) = (s', c) # e \<Longrightarrow>
      length v \<le> length s'"
    using Cons.prems(1) [of "x # t1" for t1] by simp
  have IH: "\<exists>ps. rx_scan r j (u @ v) = ps @ rx_scan r 0 v \<and> pieces_text ps = drop j u"
    if "j \<le> length u" for j
    using inside' that by (rule Cons.IH)
  show ?case
  proof (cases k)
    case (Suc k')
    with Cons.prems(2) have "k' \<le> length u" by simp
    from IH [OF this] Suc show ?thesis by simp
  next
    case 0
    from IH [of 0] obtain ps0 where ps0: "rx_scan r 0 (u @ v) = ps0 @ rx_scan r 0 v"
      "pieces_text ps0 = u"
      by auto
    have skip: "rx_scan r 0 ((x # u) @ v) = Inl x # rx_scan r 0 (u @ v) \<Longrightarrow> ?thesis"
    proof -
      assume "rx_scan r 0 ((x # u) @ v) = Inl x # rx_scan r 0 (u @ v)"
      with ps0 0 have "rx_scan r k ((x # u) @ v) = (Inl x # ps0) @ rx_scan r 0 v \<and>
          pieces_text (Inl x # ps0) = drop k (x # u)"
        by (simp add: pieces_text_def)
      then show ?thesis by blast
    qed
    show ?thesis
    proof (cases "ends r (x # u @ v, [])")
      case Nil
      then show ?thesis by (intro skip) simp
    next
      case (Cons e es)
      obtain s' c where e: "e = (s', c)" by (cases e)
      from Cons e have "(s', c) \<in> set (ends r ((x # u) @ v, []))" by simp
      from ends_sound [OF this] obtain w where w: "(x # u) @ v = w @ s'" by blast
      from Cons.prems(1) [of "[]" "x # u" s' c es] Cons e have long: "length v \<le> length s'"
        by simp
      let ?n = "length (x # u @ v) - length s'"
      from w have n: "?n = length w" by (metis add_diff_cancel_right' append_Cons length_append)
      from w long have wl: "length w \<le> length (x # u)"
        by (metis add_le_cancel_left length_append add.commute)
      show ?thesis
      proof (cases "?n = 0")
        case True
        with Cons e show ?thesis by (intro skip) simp
      next
        case False
        with Cons e have step: "rx_scan r 0 ((x # u) @ v) =
            Inr (take ?n (x # u @ v), c) # rx_scan r (?n - 1) (u @ v)"
          by (simp add: Let_def)
        from wl n False have "?n - 1 \<le> length u" by simp
        from IH [OF this] obtain ps1 where ps1: "rx_scan r (?n - 1) (u @ v) = ps1 @ rx_scan r 0 v"
          "pieces_text ps1 = drop (?n - 1) u"
          by auto
        from wl n have "?n \<le> length (x # u)" by simp
        then have "take ?n ((x # u) @ v) = take ?n (x # u)" by (rule take_inside)
        then have tk: "take ?n (x # u @ v) = take ?n (x # u)" by simp
        from False have "drop (?n - 1) u = drop ?n (x # u)"
          by (cases ?n) simp_all
        with ps1(2) tk have "pieces_text (Inr (take ?n (x # u @ v), c) # ps1) = x # u"
          by (simp add: pieces_text_def del: take_Cons' drop_Cons' take.simps drop.simps length_Cons list.size)
        with step ps1(1) 0 have "rx_scan r k ((x # u) @ v) =
            (Inr (take ?n (x # u @ v), c) # ps1) @ rx_scan r 0 v \<and>
            pieces_text (Inr (take ?n (x # u @ v), c) # ps1) = drop k (x # u)"
          by simp
        then show ?thesis by blast
      qed
    qed
  qed
qed

lemma scan_match_is_end:
  "Inr (mt, c) \<in> set (rx_scan r k s) \<Longrightarrow>
   \<exists>t s' rest. ends r (t, []) = (s', c) # rest \<and> mt = take (length t - length s') t"
proof (induction r k s rule: rx_scan.induct)
  case (1 r k)
  then show ?case by simp
next
  case (2 r k x t)
  then show ?case by simp
next
  case (3 r x t)
  show ?case
  proof (cases "ends r (x # t, [])")
    case Nil
    with 3 show ?thesis by simp
  next
    case (Cons e es)
    obtain s' c' where e: "e = (s', c')" by (cases e)
    show ?thesis
    proof (cases "length (x # t) - length s' = 0")
      case True
      with 3 Cons e show ?thesis by simp
    next
      case False
      with "3.prems" Cons e consider "mt = take (length (x # t) - length s') (x # t)" "c = c'"
        | "Inr (mt, c) \<in> set (rx_scan r (length (x # t) - length s' - 1) t)"
        by (auto simp: Let_def)
      then show ?thesis
      proof cases
        case 1
        with Cons e show ?thesis by blast
      next
        case 2
        with "3.IH"(3) [OF Cons e [symmetric] refl False] show ?thesis by blast
      qed
    qed
  qed
qed

lemma ends_Seq_mem:
  "(s', c') \<in> set (ends (Seq a b) st) \<Longrightarrow>
   \<exists>s1 c1. (s1, c1) \<in> set (ends a st) \<and> (s', c') \<in> set (ends b (s1, c1))"
  by auto

lemma ends_Grp_mem:
  "(s', c') \<in> set (ends (Grp i a) (s, c)) \<Longrightarrow>
   \<exists>c0. (s', c0) \<in> set (ends a (s, c)) \<and> c' = (i, take (length s - length s') s) # c0"
  by auto

section \<open>The statistics pass\<close>

lemma count_features_sides [simp]:
  "whiteMoves (count_features mv st) = whiteMoves st"
  "blackMoves (count_features mv st) = blackMoves st"
  "totalMoves (count_features mv st) = totalMoves st"
  by (simp_all add: count_features_def Let_def)

lemma count_piece_sides [simp]:
  "whiteMoves (count_piece mv st) = whiteMoves st"
  "blackMoves (count_piece mv st) = blackMoves st"
  "totalMoves (count_piece mv st) = totalMoves st"
  by (simp_all add: count_piece_def)

lemma push_side_total [simp]: "totalMoves (push_side i mv st) = totalMoves st"
  by (simp add: push_side_def)

lemma analyze_from_total: "totalMoves (analyze_from i mvs st) = totalMoves st"
  by (induction mvs arbitrary: i st) simp_all

lemma upt_0_Suc_shift: "[0 ..< Suc n] = 0 # map Suc [0 ..< n]"
  by (simp add: upt_conv_Cons map_Suc_upt del: upt_Suc)

lemma analyze_from_white:
  "whiteMoves (analyze_from i mvs st) =
     whiteMoves st @ map (\<lambda>j. mvs ! j) (filter (\<lambda>j. even (i + j)) [0 ..< length mvs])"
proof (induction mvs arbitrary: i st)
  case Nil
  then show ?case by simp
next
  case (Cons mv rest)
  have "map (\<lambda>j. (mv # rest) ! j) (filter (\<lambda>j. even (i + j)) [0 ..< length (mv # rest)]) =
        (if even i then [mv] else []) @
        map (\<lambda>j. rest ! j) (filter (\<lambda>j. even (Suc i + j)) [0 ..< length rest])"
    by (simp add: upt_0_Suc_shift filter_map comp_def del: upt_Suc)
  then show ?case
    using Cons.IH [of "Suc i"] by (simp add: push_side_def even_iff_mod_2_eq_zero del: upt_Suc)
qed

lemma analyze_from_black:
  "blackMoves (analyze_from i mvs st) =
     blackMoves st @ map (\<lambda>j. mvs ! j) (filter (\<lambda>j. odd (i + j)) [0 ..< length mvs])"
proof (induction mvs arbitrary: i st)
  case Nil
  then show ?case by simp
next
  case (Cons mv rest)
  have "map (\<lambda>j. (mv # rest) ! j) (filter (\<lambda>j. odd (i + j)) [0 ..< length (mv # rest)]) =
        (if odd i then [mv] else []) @
        map (\<lambda>j. rest ! j) (filter (\<lambda>j. odd (Suc i + j)) [0 ..< length rest])"
    by (simp add: upt_0_Suc_shift filter_map comp_def del: upt_Suc)
  then show ?case
    using Cons.IH [of "Suc i"] by (simp add: push_side_def even_iff_mod_2_eq_zero del: upt_Suc)
qed

text \<open>
  Claim C7.  For every list of moves, the move at index \<open>i\<close> goes to the side given by the
  parity of \<open>i\<close> alone: the white list is the moves at the even indices in order, the black
  list is the moves at the odd indices in order, and the total is the length of the list.
\<close>

theorem side_by_parity:
  "whiteMoves (analyzeMoves mvs) = map (\<lambda>i. mvs ! i) (filter even [0 ..< length mvs]) \<and>
   blackMoves (analyzeMoves mvs) = map (\<lambda>i. mvs ! i) (filter odd [0 ..< length mvs]) \<and>
   totalMoves (analyzeMoves mvs) = length mvs"
  by (simp add: analyzeMoves_def Let_def analyze_from_white analyze_from_black analyze_from_total
      initial_stats_def)

lemma push_side_counters [simp]:
  "captures (push_side i mv st) = captures st"
  "checks (push_side i mv st) = checks st"
  "checkmates (push_side i mv st) = checkmates st"
  "castles (push_side i mv st) = castles st"
  "promotions (push_side i mv st) = promotions st"
  "pawnMoves (push_side i mv st) = pawnMoves st"
  "knightMoves (push_side i mv st) = knightMoves st"
  "bishopMoves (push_side i mv st) = bishopMoves st"
  "rookMoves (push_side i mv st) = rookMoves st"
  "queenMoves (push_side i mv st) = queenMoves st"
  "kingMoves (push_side i mv st) = kingMoves st"
  by (simp_all add: push_side_def)

lemma count_features_counters [simp]:
  "captures (count_features mv st) = captures st + (if js_includes ''x'' mv then 1 else 0)"
  "checks (count_features mv st) = checks st + (if js_includes ''+'' mv then 1 else 0)"
  "checkmates (count_features mv st) = checkmates st + (if js_includes ''#'' mv then 1 else 0)"
  "castles (count_features mv st) = castles st + (if js_includes ''O-O'' mv then 1 else 0)"
  "promotions (count_features mv st) = promotions st + (if js_includes ''='' mv then 1 else 0)"
  "pawnMoves (count_features mv st) = pawnMoves st"
  "knightMoves (count_features mv st) = knightMoves st"
  "bishopMoves (count_features mv st) = bishopMoves st"
  "rookMoves (count_features mv st) = rookMoves st"
  "queenMoves (count_features mv st) = queenMoves st"
  "kingMoves (count_features mv st) = kingMoves st"
  by (simp_all add: count_features_def Let_def)

lemma count_piece_features [simp]:
  "captures (count_piece mv st) = captures st"
  "checks (count_piece mv st) = checks st"
  "checkmates (count_piece mv st) = checkmates st"
  "castles (count_piece mv st) = castles st"
  "promotions (count_piece mv st) = promotions st"
  by (simp_all add: count_piece_def)

lemma starts_with_letter:
  "starts_with [ch] mv = (case mv of [] \<Rightarrow> False | x # _ \<Rightarrow> x = ch)"
  by (cases mv) (auto simp: starts_with_def)

lemma count_piece_Nil: "count_piece [] st = st"
  by (simp add: count_piece_def starts_with_file_def starts_with_def)

lemma count_piece_Cons:
  "count_piece (ch # t) st =
     (if is_file ch then st\<lparr>pawnMoves := pawnMoves st + 1\<rparr>
      else if ch = CHR ''N'' then st\<lparr>knightMoves := knightMoves st + 1\<rparr>
      else if ch = CHR ''B'' then st\<lparr>bishopMoves := bishopMoves st + 1\<rparr>
      else if ch = CHR ''R'' then st\<lparr>rookMoves := rookMoves st + 1\<rparr>
      else if ch = CHR ''Q'' then st\<lparr>queenMoves := queenMoves st + 1\<rparr>
      else if ch = CHR ''K'' then st\<lparr>kingMoves := kingMoves st + 1\<rparr>
      else st)"
  by (simp add: count_piece_def starts_with_file_def starts_with_def)

lemma file_letters [simp]:
  "\<not> is_file CHR ''N''" "\<not> is_file CHR ''B''" "\<not> is_file CHR ''R''"
  "\<not> is_file CHR ''Q''" "\<not> is_file CHR ''K''"
  by (simp_all add: is_file_def)

lemma count_piece_counters [simp]:
  "pawnMoves (count_piece mv st) = pawnMoves st + (if starts_with_file mv then 1 else 0)"
  "knightMoves (count_piece mv st) = knightMoves st + (if starts_with ''N'' mv then 1 else 0)"
  "bishopMoves (count_piece mv st) = bishopMoves st + (if starts_with ''B'' mv then 1 else 0)"
  "rookMoves (count_piece mv st) = rookMoves st + (if starts_with ''R'' mv then 1 else 0)"
  "queenMoves (count_piece mv st) = queenMoves st + (if starts_with ''Q'' mv then 1 else 0)"
  "kingMoves (count_piece mv st) = kingMoves st + (if starts_with ''K'' mv then 1 else 0)"
  by (cases mv; simp add: count_piece_Nil count_piece_Cons starts_with_letter starts_with_file_def;
      simp add: is_file_def)+

lemma analyze_from_features:
  "captures (analyze_from i mvs st) = captures st + length (filter (js_includes ''x'') mvs)"
  "checks (analyze_from i mvs st) = checks st + length (filter (js_includes ''+'') mvs)"
  "checkmates (analyze_from i mvs st) = checkmates st + length (filter (js_includes ''#'') mvs)"
  "castles (analyze_from i mvs st) = castles st + length (filter (js_includes ''O-O'') mvs)"
  "promotions (analyze_from i mvs st) = promotions st + length (filter (js_includes ''='') mvs)"
  by (induction mvs arbitrary: i st) simp_all

lemma analyze_from_pieces:
  "pawnMoves (analyze_from i mvs st) = pawnMoves st + length (filter starts_with_file mvs)"
  "knightMoves (analyze_from i mvs st) = knightMoves st + length (filter (starts_with ''N'') mvs)"
  "bishopMoves (analyze_from i mvs st) = bishopMoves st + length (filter (starts_with ''B'') mvs)"
  "rookMoves (analyze_from i mvs st) = rookMoves st + length (filter (starts_with ''R'') mvs)"
  "queenMoves (analyze_from i mvs st) = queenMoves st + length (filter (starts_with ''Q'') mvs)"
  "kingMoves (analyze_from i mvs st) = kingMoves st + length (filter (starts_with ''K'') mvs)"
  by (induction mvs arbitrary: i st) simp_all

lemma piece_letters_le: "piece_letters mv \<le> 1"
  by (cases mv) (auto simp: piece_letters_def starts_with_letter starts_with_file_def is_file_def)

lemma sum_piece_counts:
  "length (filter starts_with_file mvs) + length (filter (starts_with ''N'') mvs)
   + length (filter (starts_with ''B'') mvs) + length (filter (starts_with ''R'') mvs)
   + length (filter (starts_with ''Q'') mvs) + length (filter (starts_with ''K'') mvs)
   = sum_list (map piece_letters mvs)"
  by (induction mvs) (auto simp: piece_letters_def)

lemma sum_piece_le: "sum_list (map piece_letters mvs) \<le> length mvs"
proof (induction mvs)
  case Nil
  then show ?case by simp
next
  case (Cons mv rest)
  then show ?case using piece_letters_le [of mv] by simp
qed

lemma analyze_counts:
  "captures (analyzeMoves mvs) = length (filter (js_includes ''x'') mvs)"
  "checks (analyzeMoves mvs) = length (filter (js_includes ''+'') mvs)"
  "checkmates (analyzeMoves mvs) = length (filter (js_includes ''#'') mvs)"
  "castles (analyzeMoves mvs) = length (filter (js_includes ''O-O'') mvs)"
  "promotions (analyzeMoves mvs) = length (filter (js_includes ''='') mvs)"
  "pawnMoves (analyzeMoves mvs) = length (filter starts_with_file mvs)"
  "knightMoves (analyzeMoves mvs) = length (filter (starts_with ''N'') mvs)"
  "bishopMoves (analyzeMoves mvs) = length (filter (starts_with ''B'') mvs)"
  "rookMoves (analyzeMoves mvs) = length (filter (starts_with ''R'') mvs)"
  "queenMoves (analyzeMoves mvs) = length (filter (starts_with ''Q'') mvs)"
  "kingMoves (analyzeMoves mvs) = length (filter (starts_with ''K'') mvs)"
  by (simp_all add: analyzeMoves_def Let_def analyze_from_features analyze_from_pieces
      initial_stats_def)

lemma piece_sum:
  "pawnMoves (analyzeMoves mvs) + knightMoves (analyzeMoves mvs) + bishopMoves (analyzeMoves mvs)
     + rookMoves (analyzeMoves mvs) + queenMoves (analyzeMoves mvs) + kingMoves (analyzeMoves mvs)
     = sum_list (map piece_letters mvs)"
  by (simp add: analyze_counts sum_piece_counts)

lemma nxf6_counts:
  "captures (analyzeMoves [''Nxf6+'']) = 1" "checks (analyzeMoves [''Nxf6+'']) = 1"
  "knightMoves (analyzeMoves [''Nxf6+'']) = 1" "pawnMoves (analyzeMoves [''Nxf6+'']) = 0"
  by (simp_all add: analyze_counts starts_with_def starts_with_file_def is_file_def)

lemma e8q_counts:
  "promotions (analyzeMoves [''e8=Q#'']) = 1" "checkmates (analyzeMoves [''e8=Q#'']) = 1"
  "pawnMoves (analyzeMoves [''e8=Q#'']) = 1" "queenMoves (analyzeMoves [''e8=Q#'']) = 0"
  by (simp_all add: analyze_counts starts_with_def starts_with_file_def is_file_def)

text \<open>
  Claim C6, as stated, with exactly one piece type for every move: it fails for castling,
  which passes none of the six tests.
\<close>

theorem castling_has_no_piece_type:
  "pawnMoves (analyzeMoves [''O-O'']) + knightMoves (analyzeMoves [''O-O''])
   + bishopMoves (analyzeMoves [''O-O'']) + rookMoves (analyzeMoves [''O-O''])
   + queenMoves (analyzeMoves [''O-O'']) + kingMoves (analyzeMoves [''O-O'']) = 0 \<and>
   castles (analyzeMoves [''O-O'']) = 1 \<and> totalMoves (analyzeMoves [''O-O'']) = 1"
  by (simp add: analyze_counts starts_with_def starts_with_file_def is_file_def
      analyzeMoves_def Let_def analyze_from_total initial_stats_def)

text \<open>
  Claim C6, amended.  Each feature counter is the number of moves that pass its substring
  test (capture \<open>x\<close>, check \<open>+\<close>, checkmate \<open>#\<close>, castle \<open>O-O\<close>, promotion \<open>=\<close>), each
  independently of the others.  Each piece counter is the number of moves that start with
  its letters (a file letter for the pawn, else N, B, R, Q, K), and a move is counted for at
  most one piece type: the six counters add up to the number of moves that pass one of the
  tests, which is at most the number of moves.  So \<open>Nxf6+\<close> counts as a capture, a check and
  a knight move and not as a pawn move, and \<open>e8=Q#\<close> counts as a promotion, a checkmate and
  a pawn move.
\<close>

theorem classify_counts:
  "captures (analyzeMoves mvs) = length (filter (js_includes ''x'') mvs) \<and>
   checks (analyzeMoves mvs) = length (filter (js_includes ''+'') mvs) \<and>
   checkmates (analyzeMoves mvs) = length (filter (js_includes ''#'') mvs) \<and>
   castles (analyzeMoves mvs) = length (filter (js_includes ''O-O'') mvs) \<and>
   promotions (analyzeMoves mvs) = length (filter (js_includes ''='') mvs) \<and>
   pawnMoves (analyzeMoves mvs) = length (filter starts_with_file mvs) \<and>
   knightMoves (analyzeMoves mvs) = length (filter (starts_with ''N'') mvs) \<and>
   bishopMoves (analyzeMoves mvs) = length (filter (starts_with ''B'') mvs) \<and>
   rookMoves (analyzeMoves mvs) = length (filter (starts_with ''R'') mvs) \<and>
   queenMoves (analyzeMoves mvs) = length (filter (starts_with ''Q'') mvs) \<and>
   kingMoves (analyzeMoves mvs) = length (filter (starts_with ''K'') mvs) \<and>
   pawnMoves (analyzeMoves mvs) + knightMoves (analyzeMoves mvs) + bishopMoves (analyzeMoves mvs)
     + rookMoves (analyzeMoves mvs) + queenMoves (analyzeMoves mvs) + kingMoves (analyzeMoves mvs)
     = sum_list (map piece_letters mvs) \<and>
   piece_letters mv \<le> 1 \<and>
   sum_list (map piece_letters mvs) \<le> length mvs \<and>
   captures (analyzeMoves [''Nxf6+'']) = 1 \<and> checks (analyzeMoves [''Nxf6+'']) = 1 \<and>
   knightMoves (analyzeMoves [''Nxf6+'']) = 1 \<and> pawnMoves (analyzeMoves [''Nxf6+'']) = 0 \<and>
   promotions (analyzeMoves [''e8=Q#'']) = 1 \<and> checkmates (analyzeMoves [''e8=Q#'']) = 1 \<and>
   pawnMoves (analyzeMoves [''e8=Q#'']) = 1 \<and> queenMoves (analyzeMoves [''e8=Q#'']) = 0"
  by (intro conjI analyze_counts piece_sum piece_letters_le sum_piece_le nxf6_counts e8q_counts)

section \<open>The opening catalog\<close>

subsection \<open>Lookup\<close>

lemma js_split_from_head:
  "\<exists>tl. js_split_from sep 0 cur s = (cur @ before_first sep s) # tl"
proof (induction s arbitrary: cur)
  case Nil
  then show ?case by simp
next
  case (Cons x t)
  show ?case
  proof (cases "starts_with sep (x # t)")
    case True
    then show ?thesis by simp
  next
    case False
    then show ?thesis using Cons.IH [of "cur @ [x]"] by simp
  qed
qed

lemma js_split_head:
  "(case js_split sep s of p # _ \<Rightarrow> p | [] \<Rightarrow> []) = before_first sep s"
  using js_split_from_head [of sep "[]" s] by (auto simp: js_split_def)

lemma before_first_same:
  "sep \<noteq> [] \<Longrightarrow> (before_first sep s = s) = (\<not> js_includes sep s)"
  by (induction s) auto

lemma lookupOpening_cases:
  "lookupOpening db slug =
     (case db slug of
        Some e \<Rightarrow> Some e
      | None \<Rightarrow>
          if js_includes ''-with-'' slug \<and> before_first ''-with-'' slug \<noteq> []
          then db (before_first ''-with-'' slug) else None)"
  by (auto simp: lookupOpening_def js_split_head Let_def before_first_same split: option.splits)

lemma italian_game_prefix:
  "js_includes ''-with-'' ''italian-game-with-4-bc4''"
  "before_first ''-with-'' ''italian-game-with-4-bc4'' = ''italian-game''"
  by (simp_all add: starts_with_def)

text \<open>
  The guard \<^verbatim>\<open>withoutWith && ...\<close> of the lookup leaves out an empty part before
  \<open>-with-\<close> (\<open>lookupOpening_cases\<close>).  The loader skips the rows whose slug is empty,
  so the empty string is no key of a mapping it builds, and there the lookup falls back
  whenever the slug contains \<open>-with-\<close>.
\<close>

lemma fill_cache_no_empty_key:
  "cache [] = None \<Longrightarrow> fill_cache rows cache [] = None"
  by (induction rows arbitrary: cache) (simp_all add: Let_def)

lemma lookup_on_loaded_catalog:
  "lookupOpening (fill_cache rows Map.empty) slug =
     (case fill_cache rows Map.empty slug of
        Some e \<Rightarrow> Some e
      | None \<Rightarrow>
          if js_includes ''-with-'' slug
          then fill_cache rows Map.empty (before_first ''-with-'' slug) else None)"
  using fill_cache_no_empty_key [of Map.empty rows]
  by (auto simp: lookupOpening_cases split: option.splits)

subsection \<open>Splitting a catalog URL\<close>

text \<open>
  Claim C2, as stated, fails: the URL \<open>https://x/openings/...\<close> does not contain the marker
  \<open>chess.com/openings/\<close> the function asks for, and the result is the empty base slug.
\<close>

theorem split_other_site_counterexample:
  "splitEcoUrl ''https://x/openings/queens-gambit-declined-with-4-nc3-and-5-bg5'' =
     \<lparr>baseSlug = [], extraMoves = []\<rparr>"
  by code_simp

text \<open>
  Claim C2, amended.  On the same path under \<open>chess.com/openings/\<close> the base slug is the
  whole slug, lower-cased, with the clause \<open>with-4-nc3-and-5-bg5\<close> intact, and the
  extra-moves fragment is empty; when moves follow the clause, the fragment starts after the
  clause and the base slug is the same.
\<close>

theorem split_keeps_with_clause:
  "splitEcoUrl ''https://www.chess.com/openings/Queens-Gambit-Declined-with-4-Nc3-and-5-Bg5'' =
     \<lparr>baseSlug = ''queens-gambit-declined-with-4-nc3-and-5-bg5'', extraMoves = []\<rparr> \<and>
   splitEcoUrl ''https://www.chess.com/openings/queens-gambit-declined-with-4-nc3-and-5-bg5'' =
     \<lparr>baseSlug = ''queens-gambit-declined-with-4-nc3-and-5-bg5'', extraMoves = []\<rparr> \<and>
   splitEcoUrl
     ''https://www.chess.com/openings/Queens-Gambit-Declined-with-4-Nc3-and-5-Bg5-5...h6-6.Bh4'' =
     \<lparr>baseSlug = ''queens-gambit-declined-with-4-nc3-and-5-bg5'', extraMoves = ''-5...h6-6.Bh4''\<rparr>"
  by code_simp

subsection \<open>Loading and caching\<close>

lemma load_hit:
  "cache_valid st now \<Longrightarrow> openingsCache st = Some c \<Longrightarrow>
   loadOpeningsDb st now db = \<lparr>loaded = c, state_after = st, store_ops = []\<rparr>"
  by (simp add: loadOpeningsDb_def)

lemma load_miss:
  "\<not> cache_valid st now \<Longrightarrow>
   loaded (loadOpeningsDb st now db) =
     (case db of AllRows rows \<Rightarrow> fill_cache rows Map.empty | _ \<Rightarrow> Map.empty) \<and>
   openingsCache (state_after (loadOpeningsDb st now db)) = Some (loaded (loadOpeningsDb st now db)) \<and>
   lastCacheTime (state_after (loadOpeningsDb st now db)) = Some now \<and>
   store_ops (loadOpeningsDb st now db) =
     (case db of Missing \<Rightarrow> [ExistsSync] | OpenError \<Rightarrow> [ExistsSync, OpenDatabase]
      | _ \<Rightarrow> [ExistsSync, OpenDatabase, SelectAll, CloseDatabase])"
  by (cases db) (simp_all add: loadOpeningsDb_def store_result_def)

lemma cache_valid_after:
  "openingsCache st = Some c \<Longrightarrow> lastCacheTime st = Some t \<Longrightarrow>
   cache_valid st now = (t \<noteq> 0 \<and> now - t < CACHE_DURATION_MS)"
  by (simp add: cache_valid_def)

lemma load_built:
  assumes "\<And>c. openingsCache st = Some c \<Longrightarrow> built_from answers c" and "db \<in> answers"
  shows "built_from answers (loaded (loadOpeningsDb st now db))"
    and "\<And>c. openingsCache (state_after (loadOpeningsDb st now db)) = Some c \<Longrightarrow> built_from answers c"
proof -
  show b: "built_from answers (loaded (loadOpeningsDb st now db))"
  proof (cases "cache_valid st now")
    case True
    then obtain c where c: "openingsCache st = Some c"
      by (auto simp: cache_valid_def split: option.splits)
    with True assms(1) show ?thesis by (simp add: load_hit)
  next
    case False
    with assms(2) show ?thesis
      by (cases db) (auto simp: load_miss built_from_def)
  qed
  fix c assume after: "openingsCache (state_after (loadOpeningsDb st now db)) = Some c"
  show "built_from answers c"
  proof (cases "cache_valid st now")
    case True
    with after have "openingsCache st = Some c" by (simp add: loadOpeningsDb_def)
    then show ?thesis by (rule assms(1))
  next
    case False
    with after have "c = loaded (loadOpeningsDb st now db)" by (simp add: load_miss)
    with b show ?thesis by simp
  qed
qed

lemma run_calls_built:
  assumes "\<And>c. openingsCache st = Some c \<Longrightarrow> built_from answers c"
    and "snd ` set calls \<subseteq> answers" and "r \<in> set (run_calls st calls)"
  shows "built_from answers (loaded r)"
  using assms
proof (induction calls arbitrary: st)
  case Nil
  then show ?case by simp
next
  case (Cons call calls)
  from Cons.prems(2) have here: "snd call \<in> answers" and rest: "snd ` set calls \<subseteq> answers"
    by auto
  from Cons.prems(3) consider "r = loadOpeningsDb st (fst call) (snd call)"
    | "r \<in> set (run_calls (state_after (loadOpeningsDb st (fst call) (snd call))) calls)"
    by auto
  then show ?case
  proof cases
    case 1
    then show ?thesis using load_built(1) [OF Cons.prems(1) here] by simp
  next
    case 2
    show ?thesis
      by (rule Cons.IH [OF _ rest 2]) (rule load_built(2) [OF Cons.prems(1) here])
  qed
qed

text \<open>
  What the loop over the rows builds: the mapping of the catalog pairs of the rows, a later
  row replacing an earlier row of the same key.
\<close>

lemma fill_cache_pairs:
  "fill_cache rows cache = cache ++ map_of (rev (catalog_pairs rows))"
proof (induction rows arbitrary: cache)
  case Nil
  then show ?case by (simp add: catalog_pairs_def)
next
  case (Cons r rows)
  show ?case
  proof (cases "row_key r = []")
    case True
    then show ?thesis using Cons.IH [of cache]
      by (simp add: catalog_pairs_def row_key_def)
  next
    case False
    then have "fill_cache (r # rows) cache = fill_cache rows (cache(row_key r \<mapsto> row_entry r))"
      by (simp add: row_key_def row_entry_def Let_def)
    also have "\<dots> = cache(row_key r \<mapsto> row_entry r) ++ map_of (rev (catalog_pairs rows))"
      by (rule Cons.IH)
    also have "\<dots> = cache ++ map_of (rev (catalog_pairs (r # rows)))"
      using False by (simp add: catalog_pairs_def fun_eq_iff map_add_def split: option.splits)
    finally show ?thesis .
  qed
qed

lemma catalog_keys:
  "dom (map_of (rev (catalog_pairs rows))) = {k. k \<noteq> [] \<and> k \<in> row_key ` set rows}"
  by (auto simp: dom_map_of_conv_image_fst catalog_pairs_def image_iff)

lemma catalog_entry:
  assumes "map_of (rev (catalog_pairs rows)) k = Some e"
  shows "\<exists>r \<in> set rows. row_key r = k \<and> e = row_entry r \<and> entry_slug e = k"
proof -
  from map_of_SomeD [OF assms] have "(k, e) \<in> set (catalog_pairs rows)" by simp
  then show ?thesis by (auto simp: catalog_pairs_def row_entry_def)
qed

lemma example_catalog:
  "catalog_pairs example_rows = [(''italian-game'', example_entry)]"
  by code_simp

lemma example_catalog_map:
  "fill_cache example_rows Map.empty = [''italian-game'' \<mapsto> example_entry]"
  by (simp add: fill_cache_pairs example_catalog)

lemma loaded_no_empty_key:
  assumes "r \<in> set (run_calls initial_cache calls)"
  shows "loaded r [] = None"
proof -
  from assms have "built_from (snd ` set calls) (loaded r)"
    by (rule run_calls_built [rotated 2]) (simp_all add: initial_cache_def)
  then show ?thesis by (auto simp: built_from_def fill_cache_no_empty_key)
qed

text \<open>
  Claim C8.  In a run of awaited calls that starts with the module just loaded, every call
  returns a mapping that is empty or holds all rows of one answer of the store: never a part
  of one.  A call that is not served by the cache returns the mapping of all rows the store
  returns, or the empty mapping when the file is missing, cannot be opened or cannot be
  queried, and stores what it returns in the cache.  After such a call at a time \<open>t1\<close> (not
  0, the value JavaScript takes for false), a call less than \<open>CACHE_DURATION_MS\<close> later
  returns the same mapping, leaves the cache as it is and makes no operation on the store;
  a call \<open>CACHE_DURATION_MS\<close> or more later checks the store once and queries it at most
  once, exactly once when the store returns rows.  The mapping of all rows is fully
  populated: its keys are the keys of the rows, the empty key apart; each key maps to the
  entry of a row of that key (the last one, as \<open>map_of\<close> of the reversed list says), and
  the slug of the entry is the key.
\<close>

theorem load_cache_window:
  "(r \<in> set (run_calls initial_cache calls) \<longrightarrow> built_from (snd ` set calls) (loaded r)) \<and>
   (\<not> cache_valid st t1 \<longrightarrow>
      loaded (loadOpeningsDb st t1 db1) =
        (case db1 of AllRows rows \<Rightarrow> fill_cache rows Map.empty | _ \<Rightarrow> Map.empty) \<and>
      openingsCache (state_after (loadOpeningsDb st t1 db1)) = Some (loaded (loadOpeningsDb st t1 db1))) \<and>
   (\<not> cache_valid st t1 \<and> t1 \<noteq> 0 \<and> t2 - t1 < CACHE_DURATION_MS \<longrightarrow>
      loadOpeningsDb (state_after (loadOpeningsDb st t1 db1)) t2 db2 =
        \<lparr>loaded = loaded (loadOpeningsDb st t1 db1),
         state_after = state_after (loadOpeningsDb st t1 db1), store_ops = []\<rparr>) \<and>
   (\<not> cache_valid st t1 \<and> CACHE_DURATION_MS \<le> t3 - t1 \<longrightarrow>
      length (filter (\<lambda>operation. operation = ExistsSync)
        (store_ops (loadOpeningsDb (state_after (loadOpeningsDb st t1 db1)) t3 db3))) = 1 \<and>
      reads (store_ops (loadOpeningsDb (state_after (loadOpeningsDb st t1 db1)) t3 db3)) \<le> 1 \<and>
      loaded (loadOpeningsDb (state_after (loadOpeningsDb st t1 db1)) t3 db3) =
        (case db3 of AllRows rows \<Rightarrow> fill_cache rows Map.empty | _ \<Rightarrow> Map.empty) \<and>
      (\<forall>rows. db3 = AllRows rows \<longrightarrow>
         reads (store_ops (loadOpeningsDb (state_after (loadOpeningsDb st t1 db1)) t3 db3)) = 1)) \<and>
   fill_cache rows Map.empty = map_of (rev (catalog_pairs rows)) \<and>
   dom (fill_cache rows Map.empty) = {k. k \<noteq> [] \<and> k \<in> row_key ` set rows} \<and>
   (\<forall>k e. fill_cache rows Map.empty k = Some e \<longrightarrow>
      (\<exists>row \<in> set rows. row_key row = k \<and> e = row_entry row \<and> entry_slug e = k)) \<and>
   (\<not> cache_valid st t1 \<longrightarrow>
      dom (loaded (loadOpeningsDb st t1 (AllRows rows))) = {k. k \<noteq> [] \<and> k \<in> row_key ` set rows})"
proof (intro conjI impI allI)
  assume "r \<in> set (run_calls initial_cache calls)"
  then show "built_from (snd ` set calls) (loaded r)"
    by (rule run_calls_built [rotated 2]) (simp_all add: initial_cache_def)
next
  assume "\<not> cache_valid st t1"
  then show "loaded (loadOpeningsDb st t1 db1) =
        (case db1 of AllRows rows \<Rightarrow> fill_cache rows Map.empty | _ \<Rightarrow> Map.empty)"
    and "openingsCache (state_after (loadOpeningsDb st t1 db1)) = Some (loaded (loadOpeningsDb st t1 db1))"
    by (simp_all add: load_miss)
next
  assume a: "\<not> cache_valid st t1 \<and> t1 \<noteq> 0 \<and> t2 - t1 < CACHE_DURATION_MS"
  let ?s = "state_after (loadOpeningsDb st t1 db1)"
  from a have c: "openingsCache ?s = Some (loaded (loadOpeningsDb st t1 db1))"
    and t: "lastCacheTime ?s = Some t1"
    by (simp_all add: load_miss)
  from a have "cache_valid ?s t2" by (simp add: cache_valid_after [OF c t])
  then show "loadOpeningsDb ?s t2 db2 =
        \<lparr>loaded = loaded (loadOpeningsDb st t1 db1), state_after = ?s, store_ops = []\<rparr>"
    using c by (rule load_hit)
next
  assume a: "\<not> cache_valid st t1 \<and> CACHE_DURATION_MS \<le> t3 - t1"
  let ?s = "state_after (loadOpeningsDb st t1 db1)"
  from a have c: "openingsCache ?s = Some (loaded (loadOpeningsDb st t1 db1))"
    and t: "lastCacheTime ?s = Some t1"
    by (simp_all add: load_miss)
  from a have miss: "\<not> cache_valid ?s t3" by (simp add: cache_valid_after [OF c t])
  show "length (filter (\<lambda>operation. operation = ExistsSync) (store_ops (loadOpeningsDb ?s t3 db3))) = 1"
    by (cases db3) (simp_all add: load_miss [OF miss])
  show "reads (store_ops (loadOpeningsDb ?s t3 db3)) \<le> 1"
    by (cases db3) (simp_all add: load_miss [OF miss] reads_def)
  show "loaded (loadOpeningsDb ?s t3 db3) =
        (case db3 of AllRows rows \<Rightarrow> fill_cache rows Map.empty | _ \<Rightarrow> Map.empty)"
    by (simp add: load_miss [OF miss])
  fix rows' assume "db3 = AllRows rows'"
  then show "reads (store_ops (loadOpeningsDb ?s t3 db3)) = 1"
    by (simp add: load_miss [OF miss] reads_def)
next
  show "fill_cache rows Map.empty = map_of (rev (catalog_pairs rows))"
    by (simp add: fill_cache_pairs)
next
  show "dom (fill_cache rows Map.empty) = {k. k \<noteq> [] \<and> k \<in> row_key ` set rows}"
    by (simp only: fill_cache_pairs empty_map_add catalog_keys)
next
  fix k e assume "fill_cache rows Map.empty k = Some e"
  then have "map_of (rev (catalog_pairs rows)) k = Some e" by (simp add: fill_cache_pairs)
  then show "\<exists>row \<in> set rows. row_key row = k \<and> e = row_entry row \<and> entry_slug e = k"
    by (rule catalog_entry)
next
  assume "\<not> cache_valid st t1"
  then have "loaded (loadOpeningsDb st t1 (AllRows rows)) = map_of (rev (catalog_pairs rows))"
    by (simp add: load_miss fill_cache_pairs)
  then show "dom (loaded (loadOpeningsDb st t1 (AllRows rows))) =
      {k. k \<noteq> [] \<and> k \<in> row_key ` set rows}"
    by (simp only: catalog_keys)
qed

theorem load_cache_window_witness:
  "\<not> cache_valid initial_cache 1000 \<and>
   2000 - 1000 < CACHE_DURATION_MS \<and>
   CACHE_DURATION_MS \<le> 400000 - 1000 \<and>
   loadOpeningsDb initial_cache 1000 (AllRows example_rows)
     \<in> set (run_calls initial_cache [(1000, AllRows example_rows), (2000, Missing)]) \<and>
   built_from {AllRows example_rows, Missing}
     (loaded (loadOpeningsDb initial_cache 1000 (AllRows example_rows))) \<and>
   loaded (loadOpeningsDb initial_cache 1000 (AllRows example_rows)) =
     fill_cache example_rows Map.empty \<and>
   loadOpeningsDb (state_after (loadOpeningsDb initial_cache 1000 (AllRows example_rows))) 2000
       Missing =
     \<lparr>loaded = fill_cache example_rows Map.empty,
      state_after = state_after (loadOpeningsDb initial_cache 1000 (AllRows example_rows)),
      store_ops = []\<rparr> \<and>
   reads (store_ops (loadOpeningsDb
     (state_after (loadOpeningsDb initial_cache 1000 (AllRows example_rows))) 400000
     (AllRows []))) = 1 \<and>
   loaded (loadOpeningsDb
     (state_after (loadOpeningsDb initial_cache 1000 (AllRows example_rows))) 400000
     (AllRows [])) = Map.empty \<and>
   dom (loaded (loadOpeningsDb initial_cache 1000 (AllRows example_rows))) = {''italian-game''} \<and>
   loaded (loadOpeningsDb initial_cache 1000 (AllRows example_rows)) ''italian-game'' =
     Some example_entry \<and>
   loaded (loadOpeningsDb (state_after (loadOpeningsDb initial_cache 1000 (AllRows example_rows)))
     2000 Missing) ''italian-game'' = Some example_entry"
proof -
  have miss: "\<not> cache_valid initial_cache 1000"
    by (simp add: cache_valid_def initial_cache_def)
  have window: "(2000::int) - 1000 < CACHE_DURATION_MS" "CACHE_DURATION_MS \<le> (400000::int) - 1000"
    by (simp_all add: CACHE_DURATION_MS_def)
  have member: "loadOpeningsDb initial_cache 1000 (AllRows example_rows)
     \<in> set (run_calls initial_cache [(1000, AllRows example_rows), (2000, Missing)])"
    by simp
  have pairs: "map_of (rev (catalog_pairs example_rows)) = [''italian-game'' \<mapsto> example_entry]"
    by (simp add: example_catalog)
  have keys: "{k. k \<noteq> [] \<and> k \<in> row_key ` set example_rows} = {''italian-game''}"
    using catalog_keys [of example_rows] by (simp add: pairs)
  note w = load_cache_window [where r = "loadOpeningsDb initial_cache 1000 (AllRows example_rows)"
      and calls = "[(1000, AllRows example_rows), (2000, Missing)]" and st = initial_cache
      and ?t1.0 = 1000 and ?db1.0 = "AllRows example_rows" and ?t2.0 = 2000 and ?db2.0 = Missing
      and ?t3.0 = 400000 and ?db3.0 = "AllRows []" and rows = example_rows]
  from w have content: "fill_cache example_rows Map.empty = [''italian-game'' \<mapsto> example_entry]"
    by (simp only: pairs)
  from w [unfolded keys] miss
  have domain: "dom (loaded (loadOpeningsDb initial_cache 1000 (AllRows example_rows))) =
      {''italian-game''}"
    by blast
  from w miss window member have first: "\<not> cache_valid initial_cache 1000 \<and>
   2000 - 1000 < CACHE_DURATION_MS \<and>
   CACHE_DURATION_MS \<le> 400000 - 1000 \<and>
   loadOpeningsDb initial_cache 1000 (AllRows example_rows)
     \<in> set (run_calls initial_cache [(1000, AllRows example_rows), (2000, Missing)]) \<and>
   built_from {AllRows example_rows, Missing}
     (loaded (loadOpeningsDb initial_cache 1000 (AllRows example_rows))) \<and>
   loaded (loadOpeningsDb initial_cache 1000 (AllRows example_rows)) =
     fill_cache example_rows Map.empty \<and>
   loadOpeningsDb (state_after (loadOpeningsDb initial_cache 1000 (AllRows example_rows))) 2000
       Missing =
     \<lparr>loaded = fill_cache example_rows Map.empty,
      state_after = state_after (loadOpeningsDb initial_cache 1000 (AllRows example_rows)),
      store_ops = []\<rparr> \<and>
   reads (store_ops (loadOpeningsDb
     (state_after (loadOpeningsDb initial_cache 1000 (AllRows example_rows))) 400000
     (AllRows []))) = 1 \<and>
   loaded (loadOpeningsDb
     (state_after (loadOpeningsDb initial_cache 1000 (AllRows example_rows))) 400000
     (AllRows [])) = Map.empty"
    by auto
  then have "loaded (loadOpeningsDb initial_cache 1000 (AllRows example_rows)) ''italian-game'' =
      Some example_entry"
    and "loaded (loadOpeningsDb (state_after (loadOpeningsDb initial_cache 1000 (AllRows example_rows)))
     2000 Missing) ''italian-game'' = Some example_entry"
    by (simp_all add: content)
  with first domain show ?thesis by blast
qed

subsection \<open>Lookup in a loaded catalog\<close>

text \<open>
  Claim C3.  On every mapping that a call of the loader returns, in every run of awaited
  calls, and on the mapping built from any list of rows, the lookup returns the entry of the
  slug when the slug is a key; otherwise, when the slug contains \<open>-with-\<close>, it returns the
  entry of the part before the first \<open>-with-\<close> when that part is a key; otherwise it
  returns null.  For \<open>italian-game-with-4-bc4\<close>, on any mapping, it returns the entry of
  that key when there is one, and what the mapping holds for \<open>italian-game\<close> (null when
  that is no key either) when there is none.
\<close>

theorem lookup_with_fallback:
  "(r \<in> set (run_calls initial_cache calls) \<longrightarrow>
      lookupOpening (loaded r) slug =
        (case loaded r slug of
           Some e \<Rightarrow> Some e
         | None \<Rightarrow>
             if js_includes ''-with-'' slug
             then loaded r (before_first ''-with-'' slug) else None)) \<and>
   lookupOpening (fill_cache rows Map.empty) slug =
     (case fill_cache rows Map.empty slug of
        Some e \<Rightarrow> Some e
      | None \<Rightarrow>
          if js_includes ''-with-'' slug
          then fill_cache rows Map.empty (before_first ''-with-'' slug) else None) \<and>
   lookupOpening db ''italian-game-with-4-bc4'' =
     (case db ''italian-game-with-4-bc4'' of
        Some e \<Rightarrow> Some e
      | None \<Rightarrow> db ''italian-game'')"
proof (intro conjI impI)
  assume "r \<in> set (run_calls initial_cache calls)"
  then have "loaded r [] = None" by (rule loaded_no_empty_key)
  then show "lookupOpening (loaded r) slug =
        (case loaded r slug of
           Some e \<Rightarrow> Some e
         | None \<Rightarrow>
             if js_includes ''-with-'' slug
             then loaded r (before_first ''-with-'' slug) else None)"
    by (auto simp: lookupOpening_cases split: option.splits)
next
  show "lookupOpening (fill_cache rows Map.empty) slug =
     (case fill_cache rows Map.empty slug of
        Some e \<Rightarrow> Some e
      | None \<Rightarrow>
          if js_includes ''-with-'' slug
          then fill_cache rows Map.empty (before_first ''-with-'' slug) else None)"
    by (rule lookup_on_loaded_catalog)
next
  show "lookupOpening db ''italian-game-with-4-bc4'' =
     (case db ''italian-game-with-4-bc4'' of
        Some e \<Rightarrow> Some e
      | None \<Rightarrow> db ''italian-game'')"
    by (simp only: lookupOpening_cases italian_game_prefix) simp
qed

theorem lookup_with_fallback_witness:
  "loadOpeningsDb initial_cache 1000 (AllRows example_rows)
     \<in> set (run_calls initial_cache [(1000, AllRows example_rows), (2000, Missing)]) \<and>
   loaded (loadOpeningsDb initial_cache 1000 (AllRows example_rows)) ''italian-game-with-4-bc4'' =
     None \<and>
   lookupOpening (loaded (loadOpeningsDb initial_cache 1000 (AllRows example_rows)))
     ''italian-game-with-4-bc4'' = Some example_entry \<and>
   lookupOpening (loaded (loadOpeningsDb initial_cache 1000 (AllRows example_rows)))
     ''italian-game'' = Some example_entry \<and>
   lookupOpening (loaded (loadOpeningsDb initial_cache 1000 (AllRows example_rows)))
     ''sicilian-defense-with-2-nf3'' = None"
proof -
  let ?r = "loadOpeningsDb initial_cache 1000 (AllRows example_rows)"
  have member: "?r \<in> set (run_calls initial_cache [(1000, AllRows example_rows), (2000, Missing)])"
    by simp
  have content: "loaded ?r = [''italian-game'' \<mapsto> example_entry]"
    by (simp add: loadOpeningsDb_def cache_valid_def initial_cache_def store_result_def
        example_catalog_map)
  have sicilian: "js_includes ''-with-'' ''sicilian-defense-with-2-nf3''"
    "before_first ''-with-'' ''sicilian-defense-with-2-nf3'' = ''sicilian-defense''"
    by (simp_all add: starts_with_def)
  note w = lookup_with_fallback [where r = ?r
      and calls = "[(1000, AllRows example_rows), (2000, Missing)]" and rows = example_rows
      and db = "loaded ?r"]
  from w [where slug = "''italian-game-with-4-bc4''"] member
  have "lookupOpening (loaded ?r) ''italian-game-with-4-bc4'' =
      (case loaded ?r ''italian-game-with-4-bc4'' of
         Some e \<Rightarrow> Some e
       | None \<Rightarrow>
           if js_includes ''-with-'' ''italian-game-with-4-bc4''
           then loaded ?r (before_first ''-with-'' ''italian-game-with-4-bc4'') else None)"
    by blast
  then have 1: "lookupOpening (loaded ?r) ''italian-game-with-4-bc4'' = Some example_entry"
    by (simp only: content italian_game_prefix) simp
  from w [where slug = "''italian-game''"] member
  have "lookupOpening (loaded ?r) ''italian-game'' =
      (case loaded ?r ''italian-game'' of
         Some e \<Rightarrow> Some e
       | None \<Rightarrow>
           if js_includes ''-with-'' ''italian-game''
           then loaded ?r (before_first ''-with-'' ''italian-game'') else None)"
    by blast
  then have 2: "lookupOpening (loaded ?r) ''italian-game'' = Some example_entry"
    by (simp only: content) simp
  from w [where slug = "''sicilian-defense-with-2-nf3''"] member
  have "lookupOpening (loaded ?r) ''sicilian-defense-with-2-nf3'' =
      (case loaded ?r ''sicilian-defense-with-2-nf3'' of
         Some e \<Rightarrow> Some e
       | None \<Rightarrow>
           if js_includes ''-with-'' ''sicilian-defense-with-2-nf3''
           then loaded ?r (before_first ''-with-'' ''sicilian-defense-with-2-nf3'') else None)"
    by blast
  then have 3: "lookupOpening (loaded ?r) ''sicilian-defense-with-2-nf3'' = None"
    by (simp only: content sicilian) simp
  from member 1 2 3 show ?thesis by (simp add: content)
qed

section \<open>The PGN parser\<close>



lemma moves_section_no_headers: "moves_section False lines False acc = acc"
  by (induction lines arbitrary: acc) simp_all

lemma extract_clean_empty: "extract_moves (clean_moves []) = []"
  by code_simp


lemma no_headers_no_moves:
  assumes "headers (parsePGN pgn) = []"
  shows "moves (parsePGN pgn) = []"
proof (cases "pgn = []")
  case True
  then show ?thesis by (simp add: parsePGN_def)
next
  case False
  with assms have "collect_headers (rx_exec_all headerRegex pgn) [] = []"
    by (simp add: parsePGN_def Let_def)
  with False show ?thesis
    by (simp add: parsePGN_def Let_def moves_section_no_headers extract_clean_empty)
qed



text \<open>
  Claim C10.  When the text contains no bracketed tag pair (the header pattern matches
  nowhere), no tag is parsed and the move list is empty, also when a move section follows a
  blank line: a blank line starts the move text only once a tag has been parsed.
\<close>

theorem headerless_no_moves:
  assumes "rx_exec_all headerRegex pgn = []"
  shows "headers (parsePGN pgn) = [] \<and> moves (parsePGN pgn) = []"
proof -
  from assms have "headers (parsePGN pgn) = []"
    by (simp add: parsePGN_def Let_def)
  then show ?thesis by (simp add: no_headers_no_moves)
qed

theorem headerless_no_moves_witness:
  "rx_exec_all headerRegex pgn_without_tags = [] \<and>
   move_lines (js_split [nl] pgn_without_tags) = [''1. e4 e5 2. Nf3''] \<and>
   moves (parsePGN pgn_without_tags) = [] \<and>
   moves (parsePGN (tag_line ''Event'' ''Live Chess'' @ [nl] @ pgn_without_tags)) =
     [''e4'', ''e5'', ''Nf3'']"
proof -
  have no_tags: "rx_exec_all headerRegex pgn_without_tags = []"
    by code_simp
  have has_section: "move_lines (js_split [nl] pgn_without_tags) = [''1. e4 e5 2. Nf3'']"
    by code_simp
  have tagged: "moves (parsePGN (tag_line ''Event'' ''Live Chess'' @ [nl] @ pgn_without_tags)) =
     [''e4'', ''e5'', ''Nf3'']"
    by code_simp
  from headerless_no_moves [OF no_tags] no_tags has_section tagged show ?thesis by simp
qed

subsection \<open>The tag mapping\<close>

lemma header_first_end:
  assumes "list_all is_word name" "name \<noteq> []" "list_all (\<lambda>ch. ch \<noteq> dq) val" "val \<noteq> []"
  shows "first_end headerRegex (tag_line name val @ s, []) = Some (s, [(2, val), (1, name)])"
proof -
  let ?after_name = "'' '' @ [dq] @ val @ [dq] @ '']'' @ s"
  let ?after_val = "[dq] @ '']'' @ s"
  have 1: "first_end (Lit ''['') (tag_line name val @ s, []) = Some (name @ ?after_name, [])"
    using first_end_Lit [of "''[''" "name @ ?after_name" "[]"] by (simp add: tag_line_def)
  have 2: "first_end (Grp 1 (Rep is_word 1 None)) (name @ ?after_name, []) =
      Some (?after_name, [(1, name)])"
    using first_end_Grp [OF first_end_Rep [of is_word name ?after_name 1 "[]"], of 1] assms
    by (cases name) (simp_all add: is_word_def is_alnum_def is_alpha_def is_lower_def
        is_upper_def is_digit_def)
  have 3: "first_end (Rep js_space 1 None) (?after_name, [(1, name)]) =
      Some ([dq] @ val @ ?after_val, [(1, name)])"
    using first_end_Rep [of js_space "'' ''" "[dq] @ val @ ?after_val" 1 "[(1, name)]"]
    by (simp add: js_space_def dq_def)
  have 4: "first_end (Lit [dq]) ([dq] @ val @ ?after_val, [(1, name)]) =
      Some (val @ ?after_val, [(1, name)])"
    by (rule first_end_Lit)
  have 5: "first_end (Grp 2 (Rep (\<lambda>ch. ch \<noteq> dq) 1 None)) (val @ ?after_val, [(1, name)]) =
      Some (?after_val, [(2, val), (1, name)])"
    using first_end_Grp [OF first_end_Rep [of "\<lambda>ch. ch \<noteq> dq" val ?after_val 1 "[(1, name)]"], of 2]
      assms
    by (cases val) simp_all
  have 6: "first_end (Lit [dq]) (?after_val, [(2, val), (1, name)]) =
      Some ('']'' @ s, [(2, val), (1, name)])"
    using first_end_Lit [of "[dq]" "'']'' @ s"] by simp
  have 7: "first_end (Lit '']'') ('']'' @ s, [(2, val), (1, name)]) = Some (s, [(2, val), (1, name)])"
    by (rule first_end_Lit)
  show ?thesis
    unfolding headerRegex_def seqs.simps
    by (intro first_end_Seq [OF 1] first_end_Seq [OF 2] first_end_Seq [OF 3] first_end_Seq [OF 4]
        first_end_Seq [OF 5] first_end_Seq [OF 6] 7)
qed

lemma header_no_match_nl: "first_end headerRegex (nl # s, []) = None"
  by (simp add: headerRegex_def first_end_def starts_with_def nl_def)

lemma tag_line_not_Nil: "tag_line n v \<noteq> []"
  by (simp add: tag_line_def)

lemma scan_tag_line:
  assumes "tag_pair t"
  shows "rx_scan headerRegex 0 (tag_line (fst t) (snd t) @ [nl] @ s) =
     Inr (tag_match t) # Inl nl # rx_scan headerRegex 0 s"
proof -
  from assms have "list_all is_word (fst t)" "fst t \<noteq> []"
    "list_all (\<lambda>ch. ch \<noteq> dq) (snd t)" "snd t \<noteq> []"
    by (auto simp: tag_pair_def tag_name_def tag_value_def split: list.splits)
  then have "first_end headerRegex (tag_line (fst t) (snd t) @ [nl] @ s, []) =
      Some ([nl] @ s, [(2, snd t), (1, fst t)])"
    by (rule header_first_end)
  then have "rx_scan headerRegex 0 (tag_line (fst t) (snd t) @ [nl] @ s) =
      Inr (tag_line (fst t) (snd t), [(2, snd t), (1, fst t)]) # rx_scan headerRegex 0 ([nl] @ s)"
    using tag_line_not_Nil by (rule rx_scan_match)
  moreover have "rx_scan headerRegex 0 (nl # s) = Inl nl # rx_scan headerRegex 0 s"
    by (rule rx_scan_no_match [OF header_no_match_nl])
  ultimately show ?thesis
    by (simp add: tag_match_def del: rx_scan.simps)
qed

lemma exec_all_render:
  "list_all tag_pair tags \<Longrightarrow>
   rx_exec_all headerRegex (render_tags tags @ s) = map tag_match tags @ rx_exec_all headerRegex s"
proof (induction tags)
  case Nil
  then show ?case by (simp add: render_tags_def)
next
  case (Cons t tags)
  then have t: "tag_pair t" and IH: "rx_exec_all headerRegex (render_tags tags @ s) =
      map tag_match tags @ rx_exec_all headerRegex s"
    by simp_all
  have "render_tags (t # tags) @ s = tag_line (fst t) (snd t) @ [nl] @ (render_tags tags @ s)"
    by (simp add: render_tags_def)
  then show ?case
    using scan_tag_line [OF t, of "render_tags tags @ s"] IH
    by (simp add: rx_exec_all_def)
qed

lemma tag_name_not_proto: "tag_name n \<Longrightarrow> n \<noteq> ''__proto__''"
  by (auto simp: tag_name_def is_alnum_def is_alpha_def is_lower_def is_upper_def is_digit_def)

lemma collect_headers_tag:
  "fst t \<noteq> ''__proto__'' \<Longrightarrow>
   collect_headers (tag_match t # ms) h = collect_headers ms (AList.update (fst t) (snd t) h)"
  by (simp add: set_header_def tag_match_def grp_text_def grp_def)

lemma collect_tag_matches:
  "list_all tag_pair tags \<Longrightarrow>
   map_of (collect_headers (map tag_match tags) h) = map_of h ++ map_of (rev tags) \<and>
   (distinct (map fst h) \<longrightarrow> distinct (map fst (collect_headers (map tag_match tags) h)))"
proof (induction tags arbitrary: h)
  case Nil
  then show ?case by simp
next
  case (Cons t tags)
  then have t: "tag_pair t" and rest: "list_all tag_pair tags"
    by simp_all
  from t have name: "fst t \<noteq> ''__proto__''"
    by (simp add: tag_pair_def tag_name_not_proto)
  have step: "collect_headers (map tag_match (t # tags)) h =
      collect_headers (map tag_match tags) (AList.update (fst t) (snd t) h)"
    using collect_headers_tag [OF name] by simp
  have "map_of (AList.update (fst t) (snd t) h) ++ map_of (rev tags) =
      map_of h ++ map_of (rev (t # tags))"
    by (cases t) (simp add: update_conv' map_add_upd_left)
  then show ?case
    unfolding step using Cons.IH [OF rest, of "AList.update (fst t) (snd t) h"]
    by (simp add: distinct_update)
qed

lemma map_of_rev_last: "map_of (rev tags) n = last_value tags n"
proof (induction tags rule: rev_induct)
  case Nil
  then show ?case by (simp add: last_value_def)
next
  case (snoc t tags)
  then show ?case
    by (cases t) (auto simp: last_value_def split: list.splits)
qed

lemma headers_of_render:
  assumes "list_all tag_pair tags" and "rx_exec_all headerRegex rest = []"
  shows "map_of (headers (parsePGN (render_tags tags @ rest))) = map_of (rev tags)"
    and "distinct (map fst (headers (parsePGN (render_tags tags @ rest))))"
proof -
  have hs: "headers (parsePGN (render_tags tags @ rest)) = collect_headers (map tag_match tags) []"
  proof (cases "render_tags tags @ rest = []")
    case True
    then have "tags = []" by (cases tags) (simp_all add: render_tags_def)
    with True show ?thesis by (simp add: parsePGN_def)
  next
    case False
    then show ?thesis
      by (auto simp: parsePGN_def Let_def exec_all_render [OF assms(1)] assms(2))
  qed
  from collect_tag_matches [OF assms(1), of "[]"]
  show "map_of (headers (parsePGN (render_tags tags @ rest))) = map_of (rev tags)"
    and "distinct (map fst (headers (parsePGN (render_tags tags @ rest))))"
    unfolding hs by simp_all
qed

text \<open>
  Claim C5, amended.  For every text that starts with a header block of one pair
  \<^verbatim>\<open>[Name "Value"]\<close> on each line, where the names are PGN tag names and the values are
  not empty and hold no double quote, and whose remaining text holds no tag pair: the
  size of the tag mapping is the number of distinct tag names of the block, and the
  mapping gives every name the value of its last pair.
\<close>

theorem tags_last_write_wins:
  assumes "list_all tag_pair tags" and "rx_exec_all headerRegex rest = []"
  shows "length (headers (parsePGN (render_tags tags @ rest))) = card (fst ` set tags) \<and>
         (\<forall>n. map_of (headers (parsePGN (render_tags tags @ rest))) n = last_value tags n)"
proof
  let ?hs = "headers (parsePGN (render_tags tags @ rest))"
  note h = headers_of_render [OF assms]
  have "card (set (map fst ?hs)) = length (map fst ?hs)"
    using h(2) by (rule distinct_card)
  moreover have "set (map fst ?hs) = dom (map_of ?hs)"
    by (simp add: dom_map_of_conv_image_fst)
  moreover have "dom (map_of ?hs) = fst ` set tags"
    unfolding h(1) by (simp add: dom_map_of_conv_image_fst)
  ultimately show "length ?hs = card (fst ` set tags)" by simp
  show "\<forall>n. map_of ?hs n = last_value tags n"
    unfolding h(1) by (simp add: map_of_rev_last)
qed

theorem tags_last_write_wins_witness:
  "list_all tag_pair example_tags \<and>
   rx_exec_all headerRegex example_movetext = [] \<and>
   length (headers (parsePGN (render_tags example_tags @ example_movetext))) = 2 \<and>
   map_of (headers (parsePGN (render_tags example_tags @ example_movetext))) ''Event'' =
     Some ''Rated''"
proof -
  have tags: "list_all tag_pair example_tags" by code_simp
  have rest: "rx_exec_all headerRegex example_movetext = []" by code_simp
  have names: "card (fst ` set example_tags) = 2" by code_simp
  have last: "last_value example_tags ''Event'' = Some ''Rated''" by code_simp
  from tags_last_write_wins [OF tags rest] tags rest names last show ?thesis by simp
qed

text \<open>
  Claim C5, as stated, fails for a pair with an empty value, which PGN allows: the header
  pattern asks for at least one character between the quotes, so the text
  \<^verbatim>\<open>[Event ""]\<close> holds one tag name and gives a mapping of size 0.
\<close>

theorem empty_value_counterexample:
  "headers (parsePGN (tag_line ''Event'' [] @ [nl])) = [] \<and>
   tag_line ''Event'' [] = ''[Event '' @ [dq, dq] @ '']''"
  by code_simp

text \<open>
  A pair whose name is \<^verbatim>\<open>__proto__\<close> (not a PGN tag name) matches the pattern and adds
  nothing to the mapping.
\<close>

lemma proto_tag_dropped: "headers (parsePGN (tag_line ''__proto__'' ''x'' @ [nl])) = []"
  by code_simp

section \<open>The clock extraction\<close>

lemma clockTail_lang:
  assumes "tw \<in> lang clockTail"
  shows "\<exists>sp ob r. tw = sp @ ob @ ''[%clk'' @ r \<and> list_all js_space sp \<and> (ob = [] \<or> ob = ''{'')"
proof -
  from lang_seqs3 [OF assms [unfolded clockTail_def]]
  obtain sp ob x r where "tw = sp @ ob @ x @ r" "sp \<in> lang (Rep js_space 0 None)"
    "ob \<in> lang (Opt (Lit ''{''))" "x \<in> lang (Lit ''[%clk'')"
    by blast
  then show ?thesis by auto
qed

lemma clockPattern_lang:
  assumes "w \<in> lang clockPattern"
  shows "\<exists>m sp ob r. w = m @ sp @ ob @ ''[%clk'' @ r \<and> m \<in> lang clockMove \<and>
           list_all js_space sp \<and> (ob = [] \<or> ob = ''{'')"
proof -
  from assms obtain m tw where "w = m @ tw" "m \<in> lang clockMove" "tw \<in> lang clockTail"
    by (auto simp: clockPattern_def)
  with clockTail_lang [of tw] show ?thesis by blast
qed

lemma clockMove_allowed:
  "allowed clockMove x = (x \<in> set ''NBRQKabcdefgh12345678x=O-'')"
  by (auto simp: clockMove_def is_piece_def is_file_def is_rank_def)

lemma clockMove_final:
  "final clockMove x = (x \<in> set ''12345678NBRQKO'')"
  by (auto simp: clockMove_def is_piece_def is_file_def is_rank_def)

lemma clockMove_min_len: "min_len clockMove = 2"
  by (simp add: clockMove_def)

lemma clockMove_word:
  assumes "m \<in> lang clockMove"
  shows "2 \<le> length m" and "\<And>x. x \<in> set m \<Longrightarrow> x \<in> set ''NBRQKabcdefgh12345678x=O-''"
    and "last m \<in> set ''12345678NBRQKO''"
proof -
  show len: "2 \<le> length m" using lang_min_len [OF assms] by (simp add: clockMove_min_len)
  show "\<And>x. x \<in> set m \<Longrightarrow> x \<in> set ''NBRQKabcdefgh12345678x=O-''"
    using lang_allowed [OF assms] by (simp only: clockMove_allowed)
  from len have "m \<noteq> []" by auto
  from lang_final [OF assms this] show "last m \<in> set ''12345678NBRQKO''"
    by (simp only: clockMove_final)
qed

lemma move_end_unique:
  assumes eq: "u @ ws @ b = m @ sp @ ob"
    and u: "u \<noteq> []" "\<not> js_space (last u)" "last u \<noteq> CHR ''{''"
    and m: "m \<noteq> []" "\<not> js_space (last m)" "last m \<noteq> CHR ''{''"
    and ws: "list_all js_space ws" and sp: "list_all js_space sp"
    and b: "b = [] \<or> b = ''{''" and ob: "ob = [] \<or> ob = ''{''"
  shows "u = m"
proof -
  have brace: "\<not> js_space CHR ''{''" by (simp add: js_space_def)
  have same: "b = ob"
  proof (rule ccontr)
    assume "b \<noteq> ob"
    with b ob consider "b = []" "ob = ''{''" | "b = ''{''" "ob = []" by auto
    then show False
    proof cases
      case 1
      with eq have "last (u @ ws) = last ((m @ sp) @ ''{'')" by simp
      then have "last (u @ ws) = CHR ''{''" by (simp only: last_snoc)
      with last_spaces [OF ws u(1)] u brace show False by auto
    next
      case 2
      with eq have "last (m @ sp) = last ((u @ ws) @ ''{'')" by simp
      then have "last (m @ sp) = CHR ''{''" by (simp only: last_snoc)
      with last_spaces [OF sp m(1)] m brace show False by auto
    qed
  qed
  with eq have "u @ ws = m @ sp" by simp
  then have "dropWhile js_space (rev (u @ ws)) = dropWhile js_space (rev (m @ sp))" by simp
  then have "rev u = rev m"
    by (simp only: strip_spaces [OF ws u(1,2)] strip_spaces [OF sp m(1,2)])
  then show ?thesis by simp
qed

lemma not_bracket:
  "list_all js_space ws \<Longrightarrow> CHR ''['' \<notin> set ws"
  "b = [] \<or> b = ''{'' \<Longrightarrow> CHR ''['' \<notin> set b"
  "m \<in> lang clockMove \<Longrightarrow> CHR ''['' \<notin> set m"
proof -
  have "\<not> js_space CHR ''[''" by (simp add: js_space_def)
  then show "list_all js_space ws \<Longrightarrow> CHR ''['' \<notin> set ws"
    by (auto simp: list_all_iff)
  show "b = [] \<or> b = ''{'' \<Longrightarrow> CHR ''['' \<notin> set b"
    by auto
  show "m \<in> lang clockMove \<Longrightarrow> CHR ''['' \<notin> set m"
    using clockMove_word(2) [of m "CHR ''[''"] by auto
qed

lemma no_match_at_check:
  assumes u: "u \<noteq> []" "last u = CHR ''+'' \<or> last u = CHR ''#''" "CHR ''['' \<notin> set u"
    and ws: "list_all js_space ws" and b: "b = [] \<or> b = ''{''"
  shows "ends clockPattern (u @ ws @ b @ ''[%clk'' @ s, c) = []"
proof (rule no_lang_no_end)
  fix w s' assume w: "w \<in> lang clockPattern"
  show "u @ ws @ b @ ''[%clk'' @ s \<noteq> w @ s'"
  proof
    assume eq: "u @ ws @ b @ ''[%clk'' @ s = w @ s'"
    from clockPattern_lang [OF w] obtain m sp ob r where
      wd: "w = m @ sp @ ob @ ''[%clk'' @ r" and m: "m \<in> lang clockMove"
      and sp: "list_all js_space sp" and ob: "ob = [] \<or> ob = ''{''"
      by blast
    from eq wd have "(u @ ws @ b) @ CHR ''['' # (''%clk'' @ s) =
        (m @ sp @ ob) @ CHR ''['' # (''%clk'' @ r @ s')"
      by simp
    moreover have "CHR ''['' \<notin> set (u @ ws @ b)"
      using u(3) not_bracket(1) [OF ws] not_bracket(2) [OF b] by simp
    moreover have "CHR ''['' \<notin> set (m @ sp @ ob)"
      using not_bracket(3) [OF m] not_bracket(1) [OF sp] not_bracket(2) [OF ob] by simp
    ultimately have parts: "u @ ws @ b = m @ sp @ ob"
      by (rule first_occurrence [rotated 2])
    from clockMove_word(1) [OF m] have m_ne: "m \<noteq> []" by auto
    from clockMove_word(3) [OF m] have m_last: "last m \<in> set ''12345678NBRQKO''" .
    from m_last have "\<not> js_space (last m)" "last m \<noteq> CHR ''{''"
      by (auto simp: js_space_def)
    moreover from u(2) have "\<not> js_space (last u)" "last u \<noteq> CHR ''{''"
      by (auto simp: js_space_def)
    ultimately have "u = m"
      using move_end_unique [OF parts u(1) _ _ m_ne _ _ ws sp b ob] by blast
    with m_last u(2) show False by auto
  qed
qed

lemma no_match_bad_head:
  assumes "x \<notin> set ''NBRQKabcdefgh12345678x=O-''"
  shows "ends clockPattern (x # s, c) = []"
proof (rule no_lang_no_end)
  fix w s' assume w: "w \<in> lang clockPattern"
  show "x # s \<noteq> w @ s'"
  proof
    assume eq: "x # s = w @ s'"
    from clockPattern_lang [OF w] obtain m t where wd: "w = m @ t" and m: "m \<in> lang clockMove"
      by blast
    from clockMove_word(1) [OF m] obtain y m' where "m = y # m'" by (cases m) auto
    with eq wd have "x \<in> set m" by simp
    with clockMove_word(2) [OF m] assms show False by blast
  qed
qed

lemma no_match_bad_second:
  assumes "y \<notin> set ''NBRQKabcdefgh12345678x=O-''"
  shows "ends clockPattern (x # y # s, c) = []"
proof (rule no_lang_no_end)
  fix w s' assume w: "w \<in> lang clockPattern"
  show "x # y # s \<noteq> w @ s'"
  proof
    assume eq: "x # y # s = w @ s'"
    from clockPattern_lang [OF w] obtain m t where wd: "w = m @ t" and m: "m \<in> lang clockMove"
      by blast
    from clockMove_word(1) [OF m] obtain a b m' where "m = a # b # m'"
      by (cases m; cases "tl m") auto
    with eq wd have "y \<in> set m" by simp
    with clockMove_word(2) [OF m] assms show False by blast
  qed
qed

lemma scan_clk_literal:
  "rx_scan clockPattern 0 (''[%clk'' @ s) = map Inl ''[%clk'' @ rx_scan clockPattern 0 s"
  by (simp add: no_match_bad_head no_match_bad_second del: ends.simps)

lemma scan_spaces:
  assumes "list_all js_space ws"
  shows "rx_scan clockPattern 0 (ws @ s) = map Inl ws @ rx_scan clockPattern 0 s"
proof (rule rx_scan_skip_prefix)
  fix t1 t2 assume "ws = t1 @ t2" "t2 \<noteq> []"
  with assms obtain x t where "t2 = x # t" "js_space x" by (cases t2) auto
  then show "ends clockPattern (t2 @ s, []) = []"
    using no_match_bad_head [of x] by (auto simp: js_space_def)
qed

lemma scan_brace:
  assumes "b = [] \<or> b = ''{''"
  shows "rx_scan clockPattern 0 (b @ s) = map Inl b @ rx_scan clockPattern 0 s"
  using assms by (auto simp: no_match_bad_head simp del: ends.simps)

lemma scan_check_move:
  assumes u: "u \<noteq> []" "last u = CHR ''+'' \<or> last u = CHR ''#''" "CHR ''['' \<notin> set u"
    and ws: "list_all js_space ws" and b: "b = [] \<or> b = ''{''"
  shows "rx_scan clockPattern 0 (u @ ws @ b @ ''[%clk'' @ s) =
     map Inl (u @ ws @ b @ ''[%clk'') @ rx_scan clockPattern 0 s"
proof -
  have "rx_scan clockPattern 0 (u @ (ws @ b @ ''[%clk'' @ s)) =
      map Inl u @ rx_scan clockPattern 0 (ws @ b @ ''[%clk'' @ s)"
  proof (rule rx_scan_skip_prefix)
    fix t1 t2 assume t: "u = t1 @ t2" "t2 \<noteq> []"
    with u have "last t2 = CHR ''+'' \<or> last t2 = CHR ''#''" "CHR ''['' \<notin> set t2" by auto
    with t(2) show "ends clockPattern (t2 @ ws @ b @ ''[%clk'' @ s, []) = []"
      using no_match_at_check [OF _ _ _ ws b] by blast
  qed
  then show ?thesis
    using scan_spaces [OF ws, of "b @ ''[%clk'' @ s"] scan_brace [OF b, of "''[%clk'' @ s"]
      scan_clk_literal [of s]
    by (simp del: rx_scan.simps)
qed

lemma clock_capture:
  assumes "(s', c) \<in> set (ends clockPattern (t, []))"
  shows "grp_text c 1 \<in> lang clockMove"
proof -
  from ends_Seq_mem [OF assms [unfolded clockPattern_def]]
  obtain s1 c1 where 1: "(s1, c1) \<in> set (ends (Grp 1 clockMove) (t, []))"
    and 2: "(s', c) \<in> set (ends clockTail (s1, c1))"
    by blast
  from ends_Grp_mem [OF 1] obtain c0 where 0: "(s1, c0) \<in> set (ends clockMove (t, []))"
    and c1: "c1 = (1, take (length t - length s1) t) # c0"
    by blast
  from ends_caps [OF 0] have "c0 = []" by (simp add: clockMove_def)
  from ends_sound [OF 0] obtain w where w: "w \<in> lang clockMove" "t = w @ s1" by blast
  from ends_caps [OF 2] obtain d where d: "c = d @ c1" "fst ` set d \<subseteq> groups clockTail" by blast
  from d(2) have "1 \<notin> fst ` set d" by (auto simp: clockTail_def)
  then have "map_of d 1 = None" by (simp add: map_of_eq_None_iff)
  with d(1) c1 w(2) have "grp_text c 1 = w"
    by (simp add: grp_text_def grp_def map_add_def)
  with w(1) show ?thesis by simp
qed

lemma movesData_shape:
  assumes "e \<in> set (movesData s)"
  shows "fst e \<in> lang clockMove"
proof -
  from assms obtain mt c where "Inr (mt, c) \<in> set (rx_scan clockPattern 0 s)"
    and e: "e = clock_entry (mt, c)"
    by (auto simp: movesData_def rx_exec_all_def split: sum.splits)
  from scan_match_is_end [OF this(1)] obtain t s' where "(s', c) \<in> set (ends clockPattern (t, []))"
    by (metis list.set_intros(1))
  from clock_capture [OF this] e show ?thesis by (simp add: clock_entry_def Let_def)
qed

text \<open>
  No match holds a \<open>+\<close> or a \<open>#\<close>, so a match that starts before such a character ends
  before it, whatever the text before: the walk cuts the text before the character into
  pieces and finds no match from the character to the end of the \<^verbatim>\<open>[%clk\<close> that follows.
\<close>

lemma clockPattern_allowed:
  "allowed clockPattern x =
     (x \<in> set ''NBRQKabcdefgh12345678x=O-{[%clk0123456789:.]}'' \<or> js_space x)"
  by (auto simp: clockPattern_def clockTail_def clockMove_allowed is_digit_def)

lemma check_not_allowed:
  "x = CHR ''+'' \<or> x = CHR ''#'' \<Longrightarrow> \<not> allowed clockPattern x"
  by (auto simp: clockPattern_allowed js_space_def)

lemma match_before_check:
  assumes x: "x = CHR ''+'' \<or> x = CHR ''#''"
    and e: "ends clockPattern (t2 @ x # v, []) = (s', c) # es"
  shows "length (x # v) \<le> length s'"
proof (rule ccontr)
  assume "\<not> length (x # v) \<le> length s'"
  then have short: "length s' < length (x # v)" by simp
  from e have "(s', c) \<in> set (ends clockPattern (t2 @ x # v, []))" by simp
  from ends_sound [OF this] obtain w where w: "w \<in> lang clockPattern" "t2 @ x # v = w @ s'"
    by blast
  from w(2) have "length t2 + length (x # v) = length w + length s'"
    by (metis length_append)
  with short have "length t2 < length w" by simp
  with w(2) have "w ! length t2 = x"
    by (metis nth_append nth_append_length)
  with \<open>length t2 < length w\<close> have "x \<in> set w" by (metis nth_mem)
  from lang_allowed [OF w(1) this] check_not_allowed [OF x] show False by simp
qed

lemma scan_before_check:
  assumes x: "x = CHR ''+'' \<or> x = CHR ''#''"
    and ws: "list_all js_space ws" and b: "b = [] \<or> b = ''{''"
  shows "\<exists>ps. rx_scan clockPattern 0 (pre @ [x] @ ws @ b @ ''[%clk'' @ rest) =
           ps @ map Inl ([x] @ ws @ b @ ''[%clk'') @ rx_scan clockPattern 0 rest \<and>
         pieces_text ps = pre"
proof -
  let ?v = "ws @ b @ ''[%clk'' @ rest"
  have "\<exists>ps. rx_scan clockPattern 0 (pre @ x # ?v) = ps @ rx_scan clockPattern 0 (x # ?v) \<and>
      pieces_text ps = drop 0 pre"
  proof (rule rx_scan_boundary)
    fix t1 t2 s' c e
    assume "ends clockPattern (t2 @ x # ?v, []) = (s', c) # e"
    with x show "length (x # ?v) \<le> length s'" by (rule match_before_check)
  qed simp
  then obtain ps where ps: "rx_scan clockPattern 0 (pre @ x # ?v) =
      ps @ rx_scan clockPattern 0 (x # ?v)" "pieces_text ps = pre"
    by auto
  from x have "x \<notin> set ''NBRQKabcdefgh12345678x=O-''" by auto
  then have "ends clockPattern (x # ?v, []) = []" by (rule no_match_bad_head)
  then have "rx_scan clockPattern 0 (x # ?v) = Inl x # rx_scan clockPattern 0 ?v"
    by simp
  also have "rx_scan clockPattern 0 ?v = map Inl (ws @ b @ ''[%clk'') @ rx_scan clockPattern 0 rest"
    using scan_spaces [OF ws, of "b @ ''[%clk'' @ rest"] scan_brace [OF b, of "''[%clk'' @ rest"]
      scan_clk_literal [of rest]
    by (simp del: rx_scan.simps)
  finally have "rx_scan clockPattern 0 (x # ?v) =
      map Inl ([x] @ ws @ b @ ''[%clk'') @ rx_scan clockPattern 0 rest"
    by simp
  with ps show ?thesis by (simp del: rx_scan.simps)
qed

text \<open>
  Claim C9.  Every entry of the clock list pairs a clock with a move text of the restricted
  shape (a word of \<open>clockMove\<close>: an optional piece letter, file, rank and \<open>x\<close>, a square,
  an optional promotion, or castling), which never ends with \<open>+\<close> or \<open>#\<close>.  And the
  clock annotation that follows a \<open>+\<close> or a \<open>#\<close> (at once, or after white space and an
  opening brace) makes no entry, whatever the text before the move, earlier annotations
  included: the walk of the pattern cuts the text before the \<open>+\<close> or \<open>#\<close> into pieces,
  leaves every character from there to the end of the annotation's \<^verbatim>\<open>[%clk\<close> outside
  every match, and goes on as the walk of what follows.  So the entries are those of
  matches that lie before the check sign, followed by the entries of the text after
  \<^verbatim>\<open>[%clk\<close>; when no \<open>[\<close> occurs before the annotation, they are the latter alone.
\<close>

theorem check_move_gets_no_clock:
  "(\<forall>e \<in> set (movesData s).
      fst e \<in> lang clockMove \<and> last (fst e) \<noteq> CHR ''+'' \<and> last (fst e) \<noteq> CHR ''#'') \<and>
   ((x = CHR ''+'' \<or> x = CHR ''#'') \<and> list_all js_space ws \<and> (b = [] \<or> b = ''{'') \<longrightarrow>
      (\<exists>ps. rx_scan clockPattern 0 (pre @ [x] @ ws @ b @ ''[%clk'' @ rest) =
               ps @ map Inl ([x] @ ws @ b @ ''[%clk'') @ rx_scan clockPattern 0 rest \<and>
             pieces_text ps = pre \<and>
             movesData (pre @ [x] @ ws @ b @ ''[%clk'' @ rest) =
               map clock_entry [m. Inr m \<leftarrow> ps] @ movesData rest)) \<and>
   (mv \<noteq> [] \<and> (last mv = CHR ''+'' \<or> last mv = CHR ''#'') \<and> CHR ''['' \<notin> set mv \<and>
    list_all js_space ws \<and> (b = [] \<or> b = ''{'') \<longrightarrow>
      movesData (mv @ ws @ b @ ''[%clk'' @ rest) = movesData rest)"
proof (intro conjI ballI impI)
  fix e assume "e \<in> set (movesData s)"
  then show shape: "fst e \<in> lang clockMove" by (rule movesData_shape)
  from clockMove_word(3) [OF shape]
  show "last (fst e) \<noteq> CHR ''+''" "last (fst e) \<noteq> CHR ''#''" by auto
next
  assume a: "(x = CHR ''+'' \<or> x = CHR ''#'') \<and> list_all js_space ws \<and> (b = [] \<or> b = ''{'')"
  then obtain ps where ps: "rx_scan clockPattern 0 (pre @ [x] @ ws @ b @ ''[%clk'' @ rest) =
      ps @ map Inl ([x] @ ws @ b @ ''[%clk'') @ rx_scan clockPattern 0 rest"
    "pieces_text ps = pre"
    using scan_before_check [of x ws b pre rest] by blast
  have "rx_exec_all clockPattern (pre @ [x] @ ws @ b @ ''[%clk'' @ rest) =
      [m. Inr m \<leftarrow> ps] @
      [m. Inr m \<leftarrow> map Inl ([x] @ ws @ b @ ''[%clk'') @ rx_scan clockPattern 0 rest]"
    unfolding rx_exec_all_def ps(1) by (rule matches_append)
  also have "[m. Inr m \<leftarrow> map Inl ([x] @ ws @ b @ ''[%clk'') @ rx_scan clockPattern 0 rest] =
      rx_exec_all clockPattern rest"
    unfolding rx_exec_all_def by (rule matches_skip_chars)
  finally have "movesData (pre @ [x] @ ws @ b @ ''[%clk'' @ rest) =
      map clock_entry [m. Inr m \<leftarrow> ps] @ movesData rest"
    by (simp only: movesData_def map_append)
  with ps show "\<exists>ps. rx_scan clockPattern 0 (pre @ [x] @ ws @ b @ ''[%clk'' @ rest) =
               ps @ map Inl ([x] @ ws @ b @ ''[%clk'') @ rx_scan clockPattern 0 rest \<and>
             pieces_text ps = pre \<and>
             movesData (pre @ [x] @ ws @ b @ ''[%clk'' @ rest) =
               map clock_entry [m. Inr m \<leftarrow> ps] @ movesData rest"
    by blast
next
  assume a: "mv \<noteq> [] \<and> (last mv = CHR ''+'' \<or> last mv = CHR ''#'') \<and> CHR ''['' \<notin> set mv \<and>
    list_all js_space ws \<and> (b = [] \<or> b = ''{'')"
  then have "rx_scan clockPattern 0 (mv @ ws @ b @ ''[%clk'' @ rest) =
      map Inl (mv @ ws @ b @ ''[%clk'') @ rx_scan clockPattern 0 rest"
    by (intro scan_check_move) simp_all
  then show "movesData (mv @ ws @ b @ ''[%clk'' @ rest) = movesData rest"
    by (simp only: movesData_def rx_exec_all_def matches_skip_chars)
qed

theorem check_move_gets_no_clock_witness:
  "list_all js_space '' '' \<and>
   movesData (example_clock_prefix @ ''+'' @ '' '' @ ''{'' @ ''[%clk'' @ example_clock_text) =
     [(''e4'', 1799 / 10), (''e5'', 178), (''Nc6'', 1753 / 10)] \<and>
   (\<exists>ps. rx_scan clockPattern 0
            (example_clock_prefix @ ''+'' @ '' '' @ ''{'' @ ''[%clk'' @ example_clock_text) =
            ps @ map Inl ''+ {[%clk'' @ rx_scan clockPattern 0 example_clock_text \<and>
          pieces_text ps = example_clock_prefix \<and>
          map clock_entry [m. Inr m \<leftarrow> ps] = [(''e4'', 1799 / 10), (''e5'', 178)]) \<and>
   movesData example_clock_text = [(''Nc6'', 1753 / 10)] \<and>
   ''2. Nf3+'' \<noteq> [] \<and> last ''2. Nf3+'' = CHR ''+'' \<and> CHR ''['' \<notin> set ''2. Nf3+'' \<and>
   movesData (''2. Nf3+'' @ '' '' @ ''{'' @ ''[%clk'' @ example_clock_text) = [(''Nc6'', 1753 / 10)] \<and>
   ''Nc6'' \<in> lang clockMove \<and>
   clock_moves (parseMovesAndClocks (tag_line ''Event'' ''Live Chess'' @ [nl, nl] @
     example_clock_prefix @ ''+ {[%clk'' @ example_clock_text)) =
     Some [(''e4'', 1799 / 10), (''e5'', 178), (''Nc6'', 1753 / 10)]"
proof -
  have mv: "''2. Nf3+'' \<noteq> []" "last ''2. Nf3+'' = CHR ''+''" "CHR ''['' \<notin> set ''2. Nf3+''"
    by simp_all
  have ws: "list_all js_space '' ''" by (simp add: js_space_def)
  have later: "movesData example_clock_text = [(''Nc6'', 1753 / 10)]"
    by code_simp
  have all: "movesData (example_clock_prefix @ ''+'' @ '' '' @ ''{'' @ ''[%clk'' @ example_clock_text) =
     [(''e4'', 1799 / 10), (''e5'', 178), (''Nc6'', 1753 / 10)]"
    by code_simp
  have whole: "clock_moves (parseMovesAndClocks (tag_line ''Event'' ''Live Chess'' @ [nl, nl] @
     example_clock_prefix @ ''+ {[%clk'' @ example_clock_text)) =
     Some [(''e4'', 1799 / 10), (''e5'', 178), (''Nc6'', 1753 / 10)]"
    by code_simp
  note w = check_move_gets_no_clock [where s = example_clock_text and x = "CHR ''+''"
      and pre = example_clock_prefix and mv = "''2. Nf3+''"
      and ws = "'' ''" and b = "''{''" and rest = example_clock_text]
  from w ws obtain ps where ps: "rx_scan clockPattern 0
      (example_clock_prefix @ ''+'' @ '' '' @ ''{'' @ ''[%clk'' @ example_clock_text) =
      ps @ map Inl (''+'' @ '' '' @ ''{'' @ ''[%clk'') @ rx_scan clockPattern 0 example_clock_text"
    "pieces_text ps = example_clock_prefix"
    "movesData (example_clock_prefix @ ''+'' @ '' '' @ ''{'' @ ''[%clk'' @ example_clock_text) =
      map clock_entry [m. Inr m \<leftarrow> ps] @ movesData example_clock_text"
    by blast
  from ps(3) have "map clock_entry [m. Inr m \<leftarrow> ps] = [(''e4'', 1799 / 10), (''e5'', 178)]"
    by (simp only: all later) simp
  with ps(1,2) have split: "\<exists>ps. rx_scan clockPattern 0
            (example_clock_prefix @ ''+'' @ '' '' @ ''{'' @ ''[%clk'' @ example_clock_text) =
            ps @ map Inl ''+ {[%clk'' @ rx_scan clockPattern 0 example_clock_text \<and>
          pieces_text ps = example_clock_prefix \<and>
          map clock_entry [m. Inr m \<leftarrow> ps] = [(''e4'', 1799 / 10), (''e5'', 178)]"
    by (intro exI [of _ ps]) (simp del: rx_scan.simps)
  from w mv ws have "movesData (''2. Nf3+'' @ '' '' @ ''{'' @ ''[%clk'' @ example_clock_text) =
      movesData example_clock_text"
    by blast
  then have short: "movesData (''2. Nf3+'' @ '' '' @ ''{'' @ ''[%clk'' @ example_clock_text) =
      [(''Nc6'', 1753 / 10)]"
    by (simp only: later)
  from w later have shape: "''Nc6'' \<in> lang clockMove" by auto
  from ws all split later mv short shape whole show ?thesis by blast
qed

section \<open>Splitting and formatting together\<close>

lemma includes_site:
  "js_includes ''chess.com/openings/'' (catalog_site @ s)"
  by (simp add: starts_with_def catalog_site_def)

lemma split_no_slash:
  "CHR ''/'' \<notin> set s \<Longrightarrow> js_split_from (CHR ''/'' # sep) 0 cur s = [cur @ s]"
  by (induction s arbitrary: cur) (auto simp: starts_with_def)

lemma split_site:
  "CHR ''/'' \<notin> set s \<Longrightarrow>
   js_split ''/openings/'' (catalog_site @ s) = [''https://www.chess.com'', s]"
  by (simp add: js_split_def starts_with_def split_no_slash catalog_site_def)

lemma protect_chars: "protect (map Inl s) wp = (s, wp)"
  by (induction s) simp_all

lemma rx_search_skip_prefix:
  "(\<And>t1 t2. u = t1 @ t2 \<Longrightarrow> t2 \<noteq> [] \<Longrightarrow> ends r (t2 @ s, []) = []) \<Longrightarrow>
   rx_search r (u @ s) =
     (case rx_search r s of None \<Rightarrow> None | Some (i, m, c) \<Rightarrow> Some (length u + i, m, c))"
proof (induction u)
  case Nil
  then show ?case by (simp split: option.splits)
next
  case (Cons x u)
  from Cons.prems [of "[]" "x # u"] have "ends r (x # u @ s, []) = []" by simp
  moreover have "rx_search r (u @ s) =
     (case rx_search r s of None \<Rightarrow> None | Some (i, m, c) \<Rightarrow> Some (length u + i, m, c))"
  proof (rule Cons.IH)
    fix t1 t2 assume "u = t1 @ t2" "t2 \<noteq> []"
    then show "ends r (t2 @ s, []) = []" using Cons.prems [of "x # t1" t2] by simp
  qed
  ultimately show ?case by (simp split: option.splits)
qed

lemma search_fragment:
  "rx_search movePattern ''-3...Nf6'' = Some (0, ''-3...N'', [(1, ''-3...N'')])"
  by code_simp

lemma format_fused: "formatExtraMoves ''-3...Nf6'' = ''3...Nf6''"
  by code_simp

lemma format_separate: "formatExtraMoves ''-3...-Nf6'' = ''3... Nf6''"
  by code_simp

lemma digit_not_slug: "is_digit d \<Longrightarrow> \<not> slug_char d"
  by (auto simp: is_digit_def slug_char_def is_alpha_def is_lower_def is_upper_def)

lemma lang_Lit_Rep:
  "w \<in> lang (Seq (Lit l) (Seq (Rep p (Suc n) hi) b)) \<Longrightarrow> \<exists>d r. w = l @ d # r \<and> p d"
proof -
  assume "w \<in> lang (Seq (Lit l) (Seq (Rep p (Suc n) hi) b))"
  then obtain ds v where w: "w = l @ ds @ v" and ds: "list_all p ds" "Suc n \<le> length ds"
    by auto
  from ds obtain d ds' where "ds = d # ds'" "p d" by (cases ds) auto
  with w show ?thesis by simp
qed

lemma lang_Rep3:
  "w \<in> lang (Seq (Rep p 3 hi) b) \<Longrightarrow> \<exists>x y z r. w = x # y # z # r \<and> p x \<and> p y \<and> p z"
proof -
  assume "w \<in> lang (Seq (Rep p 3 hi) b)"
  then obtain ds v where w: "w = ds @ v" and ds: "list_all p ds" "3 \<le> length ds"
    by auto
  from ds(2) obtain x y z ds' where "ds = x # y # z # ds'"
    by (cases ds; cases "tl ds"; cases "tl (tl ds)") auto
  with w ds(1) show ?thesis by simp
qed

lemma movePattern_lang:
  assumes "w \<in> lang movePattern"
  shows "(\<exists>d r. w = CHR ''-'' # d # r \<and> is_digit d) \<or> (\<exists>r. w = ''...'' @ r)"
proof -
  from assms consider
      "w \<in> lang (Seq (Lit ''-'') (Seq (Rep is_digit (Suc 0) None)
          (Seq (Rep is_dot 0 (Some 3)) (Cls is_alpha))))"
    | "w \<in> lang (Seq (Rep is_dot 3 (Some 3)) (Seq (Rep is_digit 1 None) (Lit ''.'')))"
    | "w \<in> lang (Seq (Rep is_dot 3 (Some 3)) (Cls is_alpha))"
    by (auto simp: movePattern_def simp del: lang.simps(4))
  then show ?thesis
  proof cases
    case 1
    from lang_Lit_Rep [OF this] show ?thesis by auto
  next
    case 2
    from lang_Rep3 [OF this] show ?thesis by (auto simp: is_dot_def)
  next
    case 3
    from lang_Rep3 [OF this] show ?thesis by (auto simp: is_dot_def)
  qed
qed

lemma no_move_in_name:
  assumes "list_all slug_char n2" and "n2 \<noteq> []"
  shows "ends movePattern (n2 @ ''-3...Nf6'', c) = []"
proof (rule no_lang_no_end)
  fix w s' assume w: "w \<in> lang movePattern"
  from assms obtain x n3 where n2: "n2 = x # n3" "slug_char x" "list_all slug_char n3"
    by (cases n2) auto
  show "n2 @ ''-3...Nf6'' \<noteq> w @ s'"
  proof
    assume eq: "n2 @ ''-3...Nf6'' = w @ s'"
    from movePattern_lang [OF w] show False
    proof (elim disjE exE conjE)
      fix d r assume wd: "w = CHR ''-'' # d # r" and d: "is_digit d"
      with eq n2 have "n3 @ ''-3...Nf6'' = d # r @ s'" by simp
      then have "d = CHR ''-'' \<or> slug_char d"
        using n2(3) by (cases n3) auto
      with d digit_not_slug show False by (auto simp: is_digit_def)
    next
      fix r assume "w = ''...'' @ r"
      with eq n2 have "x = CHR ''.''" by simp
      with n2(2) show False
        by (simp add: slug_char_def is_alpha_def is_lower_def is_upper_def)
    qed
  qed
qed

lemma search_in_slug:
  assumes "list_all slug_char name"
  shows "rx_search movePattern (name @ ''-3...Nf6'') =
     Some (length name, ''-3...N'', [(1, ''-3...N'')])"
proof -
  have "rx_search movePattern (name @ ''-3...Nf6'') =
     (case rx_search movePattern ''-3...Nf6'' of None \<Rightarrow> None
      | Some (i, m, c) \<Rightarrow> Some (length name + i, m, c))"
  proof (rule rx_search_skip_prefix)
    fix t1 t2 assume "name = t1 @ t2" "t2 \<noteq> []"
    with assms show "ends movePattern (t2 @ ''-3...Nf6'', []) = []"
      by (intro no_move_in_name) auto
  qed
  then show ?thesis by (simp only: search_fragment) simp
qed

lemma digit_in_slug:
  "list_all slug_char name \<Longrightarrow> name @ ''-3...Nf6'' = p @ d # c # q \<Longrightarrow> is_digit d \<Longrightarrow>
   c = CHR ''.''"
proof (induction name arbitrary: p)
  case Nil
  then show ?case by (auto simp: Cons_eq_append_conv is_digit_def)
next
  case (Cons a name)
  show ?case
  proof (cases p)
    case Nil
    with Cons.prems digit_not_slug [of d] show ?thesis by simp
  next
    case (Cons b p')
    with Cons.prems Cons.IH [of p'] show ?thesis by simp
  qed
qed

lemma withRegex_lang:
  assumes "w \<in> lang withRegex"
  shows "\<exists>ds r. w = ''with-'' @ ds @ CHR ''-'' # r \<and> ds \<noteq> [] \<and> list_all is_digit ds"
proof -
  from lang_seqs3 [OF assms [unfolded withRegex_def]]
  obtain u v x y where "w = u @ v @ x @ y" "u \<in> lang (Lit ''with-'')"
    "v \<in> lang (Grp 1 (Rep is_digit 1 None))" "x \<in> lang (Lit ''-'')"
    by blast
  then have "w = ''with-'' @ v @ CHR ''-'' # y" "v \<noteq> []" "list_all is_digit v" by auto
  then show ?thesis by blast
qed

lemma no_with_in_slug:
  assumes "list_all slug_char name" and "name @ ''-3...Nf6'' = t1 @ t2"
  shows "ends withRegex (t2, c) = []"
proof (rule no_lang_no_end)
  fix w s' assume w: "w \<in> lang withRegex"
  show "t2 \<noteq> w @ s'"
  proof
    assume eq: "t2 = w @ s'"
    from withRegex_lang [OF w] obtain ds r where
      wd: "w = ''with-'' @ ds @ CHR ''-'' # r" and ds: "ds \<noteq> []" "list_all is_digit ds"
      by blast
    from ds obtain d ds' where d: "ds = d # ds'" "is_digit d" "list_all is_digit ds'"
      by (cases ds) auto
    obtain x q where next_char: "ds' @ CHR ''-'' # r @ s' = x # q" "is_digit x \<or> x = CHR ''-''"
      using d(3) by (cases ds') auto
    from assms(2) eq wd d(1) next_char(1)
    have "name @ ''-3...Nf6'' = (t1 @ ''with-'') @ d # x # q" by simp
    from digit_in_slug [OF assms(1) this d(2)] next_char(2) show False
      by (auto simp: is_digit_def)
  qed
qed

lemma scan_with_in_slug:
  assumes "list_all slug_char name"
  shows "rx_scan withRegex 0 (name @ ''-3...Nf6'') = map Inl (name @ ''-3...Nf6'')"
proof -
  have "rx_scan withRegex 0 ((name @ ''-3...Nf6'') @ []) =
      map Inl (name @ ''-3...Nf6'') @ rx_scan withRegex 0 []"
  proof (rule rx_scan_skip_prefix)
    fix t1 t2 assume "name @ ''-3...Nf6'' = t1 @ t2"
    with assms show "ends withRegex (t2 @ [], []) = []"
      by (simp add: no_with_in_slug)
  qed
  then show ?thesis by simp
qed

lemma protect_slug:
  assumes "list_all slug_char name"
  shows "protect (rx_scan withRegex 0 (name @ ''-3...Nf6'')) [] = (name @ ''-3...Nf6'', [])"
  by (simp only: scan_with_in_slug [OF assms] protect_chars)

lemma slug_no_slash:
  "list_all slug_char name \<Longrightarrow> CHR ''/'' \<notin> set (name @ ''-3...Nf6'')"
proof -
  have "\<not> slug_char CHR ''/''"
    by (simp add: slug_char_def is_alpha_def is_lower_def is_upper_def)
  then show "list_all slug_char name \<Longrightarrow> CHR ''/'' \<notin> set (name @ ''-3...Nf6'')"
    by (auto simp: list_all_iff)
qed

lemma split_slug:
  assumes "list_all slug_char name"
  shows "splitEcoUrl (catalog_site @ name @ ''-3...Nf6'') =
     \<lparr>baseSlug = toLowerCase name, extraMoves = ''-3...Nf6''\<rparr>"
proof -
  have url: "catalog_site @ name @ ''-3...Nf6'' \<noteq> []" by simp
  have parts: "js_split ''/openings/'' (catalog_site @ name @ ''-3...Nf6'') =
      [''https://www.chess.com'', name @ ''-3...Nf6'']"
    using split_site [OF slug_no_slash [OF assms]] .
  show ?thesis
    by (simp add: splitEcoUrl_def url includes_site parts protect_slug [OF assms]
        search_in_slug [OF assms])
qed

text \<open>
  Claim C1, amended.  For every URL \<^verbatim>\<open>https://www.chess.com/openings/<name>-3...Nf6\<close> whose
  opening name is made of letters and hyphens, the split gives the lower-cased name as base
  slug and \<^verbatim>\<open>-3...Nf6\<close> as extra moves, and formatting these extra moves gives
  \<^verbatim>\<open>3...Nf6\<close>, without a space.  The string \<^verbatim>\<open>3... Nf6\<close> is what the formatter gives for
  the fragment \<^verbatim>\<open>-3...-Nf6\<close>, where the marker and the move are separate tokens.
\<close>

theorem roundtrip_fused_marker:
  assumes "list_all slug_char name"
  shows "extraMoves (splitEcoUrl (catalog_site @ name @ ''-3...Nf6'')) =
           ''-3...Nf6'' \<and>
         baseSlug (splitEcoUrl (catalog_site @ name @ ''-3...Nf6'')) =
           toLowerCase name \<and>
         formatExtraMoves
           (extraMoves (splitEcoUrl (catalog_site @ name @ ''-3...Nf6''))) =
           ''3...Nf6'' \<and>
         formatExtraMoves ''-3...-Nf6'' = ''3... Nf6''"
  by (simp add: split_slug [OF assms] format_fused format_separate)

theorem roundtrip_fused_marker_witness:
  "list_all slug_char ''Sicilian-Defense'' \<and>
   catalog_site @ ''Sicilian-Defense'' @ ''-3...Nf6'' =
     ''https://www.chess.com/openings/Sicilian-Defense-3...Nf6'' \<and>
   splitEcoUrl ''https://www.chess.com/openings/Sicilian-Defense-3...Nf6'' =
     \<lparr>baseSlug = ''sicilian-defense'', extraMoves = ''-3...Nf6''\<rparr> \<and>
   formatExtraMoves
     (extraMoves (splitEcoUrl ''https://www.chess.com/openings/Sicilian-Defense-3...Nf6'')) =
     ''3...Nf6''"
proof -
  have name: "list_all slug_char ''Sicilian-Defense''" by code_simp
  have lower: "toLowerCase ''Sicilian-Defense'' = ''sicilian-defense''" by code_simp
  have url: "catalog_site @ ''Sicilian-Defense'' @ ''-3...Nf6'' =
     ''https://www.chess.com/openings/Sicilian-Defense-3...Nf6''"
    by (simp add: catalog_site_def)
  note w = roundtrip_fused_marker [OF name, unfolded url lower]
  from w name url show ?thesis
    by (cases "splitEcoUrl ''https://www.chess.com/openings/Sicilian-Defense-3...Nf6''") simp
qed

text \<open>
  Claim C1, as stated, fails: in a URL the marker and the move are one token, which the
  formatter passes on as it is, so the result has no space.
\<close>

theorem roundtrip_counterexample:
  "formatExtraMoves
     (extraMoves (splitEcoUrl ''https://www.chess.com/openings/Sicilian-Defense-3...Nf6'')) =
     ''3...Nf6'' \<and>
   ''3...Nf6'' \<noteq> ''3... Nf6''"
  by code_simp

end
